theory Spec2Isabelle
  imports Main "HOL-Library.Word"
begin

unbundle bit_operations_syntax

section \<open>Data model\<close>

text \<open>
  The validator of \<^verbatim>\<open>src/z_validate.c\<close> works on AVX2 vectors. A vector
  \<^verbatim>\<open>vec_t = __m256i\<close> is modelled as the list of its 32 bytes, byte 0 (the lowest
  address) first. The C scalars keep their widths: \<^verbatim>\<open>uint32_t\<close> is \<open>32 word\<close>,
  \<^verbatim>\<open>uint64_t\<close> is \<open>64 word\<close>. The length \<^verbatim>\<open>int64_t len\<close> is an \<open>int\<close>: the only
  arithmetic on it is \<^verbatim>\<open>len -= 32\<close> under the guard \<^verbatim>\<open>len > 0\<close>, which cannot wrap.
\<close>

type_synonym u8 = "8 word"
type_synonym u16 = "16 word"
type_synonym u32 = "32 word"
type_synonym u64 = "64 word"
type_synonym vec_t = "u8 list"

text \<open>
  Memory is the list of the bytes that are readable from the pointer \<^verbatim>\<open>data\<close> onwards
  (index 0 is \<^verbatim>\<open>data[0]\<close>); it may be longer than \<^verbatim>\<open>len\<close>. \<open>addr\<close> is the address that
  \<^verbatim>\<open>data\<close> has at the call. All offsets the code forms are \<^verbatim>\<open>data\<close> plus a
  non-negative number, so offsets are natural numbers.

  A vector load \<^verbatim>\<open>*(vec_t *)(data + off)\<close> reads the 32 bytes at offsets
  \<open>off ..< off + 32\<close>. It dereferences a pointer to \<^verbatim>\<open>__m256i\<close>, which is an aligned load:
  compiled to an aligned move it traps when the address \<open>addr + off\<close> is not a multiple of
  32. C leaves the misaligned access undefined, and the compiler may as well emit an
  instruction that takes any address and reads the bytes. \<open>strict\<close> says which of the two
  the loads of the build do (\<open>True\<close>: they trap). A load that traps is the fault
  \<open>Misaligned\<close>, a load of a byte that is not readable is the fault \<open>Out_Of_Bounds\<close>; a
  fault ends the call, whose result is then \<open>Inl\<close> of the fault.
\<close>

datatype fault = Misaligned | Out_Of_Bounds

definition load_vec :: "bool \<Rightarrow> nat \<Rightarrow> u8 list \<Rightarrow> nat \<Rightarrow> fault + vec_t" where
  "load_vec strict addr mem off =
     (if strict \<and> \<not> 32 dvd (addr + off) then Inl Misaligned
      else if off + 32 \<le> length mem then Inr (take 32 (drop off mem))
      else Inl Out_Of_Bounds)"

section \<open>The AVX2 intrinsics the validator uses\<close>

definition mm256_set1_epi8 :: "u8 \<Rightarrow> vec_t" where
  "mm256_set1_epi8 b = replicate 32 b"

text \<open>\<^verbatim>\<open>LOOKUP16(...)\<close> is \<^verbatim>\<open>_mm256_setr_epi8(__VA_ARGS__, __VA_ARGS__)\<close>: the 16 values twice.\<close>

definition LOOKUP16 :: "u8 list \<Rightarrow> vec_t" where
  "LOOKUP16 xs = xs @ xs"

text \<open>One 128-bit half chosen by a 4-bit control, as \<^verbatim>\<open>vperm2i128\<close> does.\<close>

definition select4 :: "vec_t \<Rightarrow> vec_t \<Rightarrow> nat \<Rightarrow> u8 list" where
  "select4 a b c =
     (if (c div 8) mod 2 = 1 then replicate 16 0
      else if c mod 4 = 0 then take 16 a
      else if c mod 4 = 1 then drop 16 a
      else if c mod 4 = 2 then take 16 b
      else drop 16 b)"

definition mm256_permute2x128_si256 :: "vec_t \<Rightarrow> vec_t \<Rightarrow> nat \<Rightarrow> vec_t" where
  "mm256_permute2x128_si256 a b imm = select4 a b (imm mod 16) @ select4 a b (imm div 16)"

text \<open>
  \<^verbatim>\<open>vpalignr\<close> on one 128-bit lane: the 32-byte concatenation (\<open>a\<close> above \<open>b\<close>)
  shifted right by \<open>n\<close> bytes, low 16 bytes kept.
\<close>

definition alignr_lane :: "u8 list \<Rightarrow> u8 list \<Rightarrow> nat \<Rightarrow> u8 list" where
  "alignr_lane a b n = take 16 (drop n (b @ a @ replicate 32 0))"

definition mm256_alignr_epi8 :: "vec_t \<Rightarrow> vec_t \<Rightarrow> nat \<Rightarrow> vec_t" where
  "mm256_alignr_epi8 a b n =
     alignr_lane (take 16 a) (take 16 b) n @ alignr_lane (drop 16 a) (drop 16 b) n"

text \<open>\<^verbatim>\<open>vpmovmskb\<close>: bit \<open>i\<close> of the result is the top bit of byte \<open>i\<close>.\<close>

definition mm256_movemask_epi8 :: "vec_t \<Rightarrow> u32" where
  "mm256_movemask_epi8 v = horner_sum of_bool 2 (map (\<lambda>b. bit b 7) v)"

text \<open>The 16-bit lane \<open>j\<close> of a vector (little endian), and a lane-wise operation.\<close>

definition epi16 :: "vec_t \<Rightarrow> nat \<Rightarrow> u16" where
  "epi16 v j = (ucast (v ! (2 * j)) :: u16) OR push_bit 8 (ucast (v ! (2 * j + 1)))"

definition map_epi16 :: "(u16 \<Rightarrow> u16) \<Rightarrow> vec_t \<Rightarrow> vec_t" where
  "map_epi16 f v =
     map (\<lambda>i. let w = f (epi16 v (i div 2))
              in if even i then ucast w else ucast (drop_bit 8 w)) [0..<32]"

definition mm256_slli_epi16 :: "vec_t \<Rightarrow> nat \<Rightarrow> vec_t" where
  "mm256_slli_epi16 v n = map_epi16 (push_bit n) v"

definition mm256_srli_epi16 :: "vec_t \<Rightarrow> nat \<Rightarrow> vec_t" where
  "mm256_srli_epi16 v n = map_epi16 (drop_bit n) v"

definition mm256_and_si256 :: "vec_t \<Rightarrow> vec_t \<Rightarrow> vec_t" where
  "mm256_and_si256 a b = map2 (AND) a b"

text \<open>
  \<^verbatim>\<open>vpshufb\<close>: in each 128-bit lane, byte \<open>i\<close> of the result is 0 when the index byte
  has its top bit set, and the table byte selected by its low four bits otherwise.
\<close>

definition mm256_shuffle_epi8 :: "vec_t \<Rightarrow> vec_t \<Rightarrow> vec_t" where
  "mm256_shuffle_epi8 a b =
     map (\<lambda>i. if bit (b ! i) 7 then 0
              else a ! (16 * (i div 16) + unat (b ! i AND 0x0F))) [0..<32]"

text \<open>\<^verbatim>\<open>vptest\<close>: 1 when the bitwise AND of the operands is zero everywhere, else 0.\<close>

definition mm256_testz_si256 :: "vec_t \<Rightarrow> vec_t \<Rightarrow> int" where
  "mm256_testz_si256 a b = (if list_all (\<lambda>x. x = 0) (map2 (AND) a b) then 1 else 0)"

section \<open>The validator\<close>

definition v_shift_left :: "vec_t \<Rightarrow> vec_t \<Rightarrow> vec_t" where
  "v_shift_left top_v bottom_v =
     (let shl_16 = mm256_permute2x128_si256 top_v bottom_v 0x03
      in mm256_alignr_epi8 top_v shl_16 15)"

definition error_1 :: vec_t where
  "error_1 = LOOKUP16
     [0x00, 0x00, 0x00, 0x00,
      0x00, 0x00, 0x00, 0x00,
      0x00, 0x00, 0x00, 0x00,
      0x01, 0x00, 0x06, 0x18]"

definition error_2 :: vec_t where
  "error_2 = LOOKUP16
     [0x03, 0x01, 0x00, 0x00,
      0x08, 0x10, 0x10, 0x10,
      0x10, 0x10, 0x10, 0x10,
      0x10, 0x14, 0x10, 0x10]"

definition error_3 :: vec_t where
  "error_3 = LOOKUP16
     [0x11, 0x11, 0x11, 0x11,
      0x11, 0x11, 0x11, 0x11,
      0x13, 0x1B, 0x1D, 0x1D,
      0x19, 0x19, 0x19, 0x19]"

definition mask_0F :: vec_t where
  "mask_0F = mm256_set1_epi8 0x0F"

text \<open>
  One round \<open>n\<close> of the inner loop (lines 172-193) on the triple \<open>(set, cont, req)\<close>
  (\<open>set\<close> is written \<open>set_v\<close>). \<open>set\<close> and \<open>req\<close> are \<^verbatim>\<open>uint64_t\<close>, \<open>cont\<close> and \<open>high\<close> are \<^verbatim>\<open>uint32_t\<close>;
  \<^verbatim>\<open>high ^ set\<close> is computed in 64 bits and truncated by the assignment to \<open>cont\<close>.
\<close>

definition mask_round :: "vec_t \<Rightarrow> u32 \<Rightarrow> nat \<Rightarrow> u64 \<times> u32 \<times> u64 \<Rightarrow> u64 \<times> u32 \<times> u64" where
  "mask_round bytes high n = (\<lambda>(set_v, cont, req).
     let bit_v = mm256_slli_epi16 bytes n;
         set' = set_v AND ucast (mm256_movemask_epi8 bit_v);
         cont' = (if n = 1 then ucast (ucast high XOR set') else cont);
         req' = req + push_bit n set'
     in (set', cont', req'))"

text \<open>
  The inner loop \<^verbatim>\<open>for (int n = 1; n <= 3; n++)\<close> with its initialisation
  \<^verbatim>\<open>req = last_cont; set = high\<close>. \<open>cont\<close> is declared without a value in the source and
  assigned in round 1; the 0 here is that not yet assigned value and is never read.
\<close>

definition cont_masks :: "vec_t \<Rightarrow> u32 \<Rightarrow> u32 \<Rightarrow> u32 \<times> u64" where
  "cont_masks bytes high last_cont =
     (case fold (mask_round bytes high) [1, 2, 3] (ucast high, 0, ucast last_cont) of
        (set_v, cont, req) \<Rightarrow> (cont, req))"

text \<open>Lines 205-216: the three nibble lookups and their intersection.\<close>

definition error_test :: "vec_t \<Rightarrow> vec_t \<Rightarrow> int" where
  "error_test shifted_bytes bytes =
     (let m_1 = mm256_and_si256 (mm256_srli_epi16 shifted_bytes 4) mask_0F;
          e_1 = mm256_shuffle_epi8 error_1 m_1;
          m_2 = mm256_and_si256 shifted_bytes mask_0F;
          e_2 = mm256_shuffle_epi8 error_2 m_2;
          m_3 = mm256_and_si256 (mm256_srli_epi16 bytes 4) mask_0F;
          e_3 = mm256_shuffle_epi8 error_3 m_3
      in mm256_testz_si256 (mm256_and_si256 e_1 e_2) e_3)"

text \<open>
  What one execution of the loop body (lines 155-221) does: it returns from the function
  (\<open>Stop\<close>), or it reaches the end of the body or the \<^verbatim>\<open>continue\<close> with new values of
  \<open>last_cont\<close> and \<open>next_bytes\<close> (\<open>Next\<close>). On \<^verbatim>\<open>continue\<close> both keep their old values.
\<close>

datatype body_result = Stop "fault + int" | Next u32 vec_t

definition z_body :: "bool \<Rightarrow> nat \<Rightarrow> u8 list \<Rightarrow> nat \<Rightarrow> u32 \<Rightarrow> vec_t \<Rightarrow> body_result" where
  "z_body strict addr mem data last_cont next_bytes =
     (case load_vec strict addr mem data of
        Inl f \<Rightarrow> Stop (Inl f)
      | Inr bytes \<Rightarrow>
          let high = mm256_movemask_epi8 bytes in
          if high OR last_cont = 0 then Next last_cont next_bytes
          else
            (case cont_masks bytes high last_cont of (cont, req) \<Rightarrow>
               if cont \<noteq> ucast req then Stop (Inr 0)
               else
                 let shifted_bytes = next_bytes in
                 if error_test shifted_bytes bytes = 0 then Stop (Inr 0)
                 else
                   (case load_vec strict addr mem (data + 31) of
                      Inl f \<Rightarrow> Stop (Inl f)
                    | Inr nb \<Rightarrow> Next (ucast (drop_bit 32 req)) nb)))"

text \<open>
  The loop \<^verbatim>\<open>for (; len > 0; len -= 32, data += 32)\<close> and the final
  \<^verbatim>\<open>return last_cont == 0\<close>.
\<close>

function z_loop :: "bool \<Rightarrow> nat \<Rightarrow> u8 list \<Rightarrow> nat \<Rightarrow> int \<Rightarrow> u32 \<Rightarrow> vec_t \<Rightarrow> fault + int" where
  "z_loop strict addr mem data len last_cont next_bytes =
     (if len > 0 then
        (case z_body strict addr mem data last_cont next_bytes of
           Stop r \<Rightarrow> r
         | Next last_cont' next_bytes' \<Rightarrow> z_loop strict addr mem (data + 32) (len - 32) last_cont' next_bytes')
      else Inr (if last_cont = 0 then 1 else 0))"
  by pat_completeness auto
termination
  by (relation "measure (\<lambda>(strict, addr, mem, data, len, last_cont, next_bytes). nat len)") auto

text \<open>
  The whole function. The vector at \<^verbatim>\<open>data\<close> is loaded before the loop, whatever
  \<open>len\<close> is (line 151).
\<close>

definition z_validate_utf8 :: "bool \<Rightarrow> nat \<Rightarrow> u8 list \<Rightarrow> int \<Rightarrow> fault + int" where
  "z_validate_utf8 strict addr mem len =
     (case load_vec strict addr mem 0 of
        Inl f \<Rightarrow> Inl f
      | Inr first \<Rightarrow> z_loop strict addr mem 0 len 0 (v_shift_left first (mm256_set1_epi8 0)))"

section \<open>Per-byte views used in the statements\<close>

text \<open>
  The two nibbles of a byte, as table indices; and what lines 205-216 compute in one byte
  lane: the AND of \<open>error_1\<close> at the high nibble of the previous byte, \<open>error_2\<close> at its low
  nibble and \<open>error_3\<close> at the high nibble of the current byte (lemma \<open>error_test_eq\<close>
  below shows that \<open>error_test\<close> is this value in every lane).
\<close>

definition hi_nibble :: "u8 \<Rightarrow> nat" where
  "hi_nibble b = unat (drop_bit 4 b)"

definition lo_nibble :: "u8 \<Rightarrow> nat" where
  "lo_nibble b = unat (b AND 0x0F)"

definition nibble_error :: "u8 \<Rightarrow> u8 \<Rightarrow> u8" where
  "nibble_error prev cur =
     error_1 ! hi_nibble prev AND error_2 ! lo_nibble prev AND error_3 ! hi_nibble cur"

text \<open>Number of whole 32-byte chunks the loop visits for a length: \<open>ceil (len / 32)\<close>.\<close>

definition chunks :: "int \<Rightarrow> nat" where
  "chunks len = nat ((len + 31) div 32)"

definition is_cont :: "u8 \<Rightarrow> bool" where
  "is_cont b \<longleftrightarrow> bit b 7 \<and> \<not> bit b 6"

definition leader_len :: "u8 \<Rightarrow> nat" where
  "leader_len b = (if bit b 7 \<and> bit b 6 then if bit b 5 then if bit b 4 then 3 else 2 else 1 else 0)"

definition lead_mask :: "vec_t \<Rightarrow> nat \<Rightarrow> u64" where
  "lead_mask bs n = horner_sum of_bool 2 (map (\<lambda>b. n \<le> leader_len b) bs)"

definition shl_mask :: "vec_t \<Rightarrow> nat \<Rightarrow> u64" where
  "shl_mask bs n = push_bit n (lead_mask bs n)"

definition req_sum :: "u32 \<Rightarrow> vec_t \<Rightarrow> u64" where
  "req_sum lc bs = ucast lc + shl_mask bs 1 + shl_mask bs 2 + shl_mask bs 3"

definition req_or :: "u32 \<Rightarrow> vec_t \<Rightarrow> u64" where
  "req_or lc bs = ucast lc OR shl_mask bs 1 OR shl_mask bs 2 OR shl_mask bs 3"

definition cont_mask :: "vec_t \<Rightarrow> u32" where
  "cont_mask bs = horner_sum of_bool 2 (map is_cont bs)"

definition overlap :: "'a::len word \<Rightarrow> 'a word \<Rightarrow> 'a word \<Rightarrow> 'a word \<Rightarrow> nat \<Rightarrow> bool" where
  "overlap L A B C k \<longleftrightarrow> (bit L k \<and> bit A k) \<or> (bit L k \<and> bit B k) \<or> (bit L k \<and> bit C k)
      \<or> (bit A k \<and> bit B k) \<or> (bit A k \<and> bit C k) \<or> (bit B k \<and> bit C k)"

definition req_at :: "u8 list \<Rightarrow> nat \<Rightarrow> bool" where
  "req_at mem p \<longleftrightarrow> (\<exists>m\<in>{1, 2, 3}. m \<le> p \<and> m \<le> leader_len (mem ! (p - m)))"

definition carry_bit :: "u8 list \<Rightarrow> nat \<Rightarrow> nat \<Rightarrow> bool" where
  "carry_bit mem d j \<longleftrightarrow> (\<exists>m\<in>{1, 2, 3}. j < m \<and> m \<le> d + j \<and> m \<le> leader_len (mem ! (d + j - m)))"

definition carry_word :: "u8 list \<Rightarrow> nat \<Rightarrow> u32" where
  "carry_word mem d = horner_sum of_bool 2 (map (carry_bit mem d) [0..<3])"

definition chunk_ascii :: "u8 list \<Rightarrow> nat \<Rightarrow> bool" where
  "chunk_ascii mem d \<longleftrightarrow> (\<forall>i<32. \<not> bit (mem ! (d + i)) 7)"

definition chunk_struct :: "u8 list \<Rightarrow> nat \<Rightarrow> bool" where
  "chunk_struct mem d \<longleftrightarrow> (\<forall>i<32. is_cont (mem ! (d + i)) \<longleftrightarrow> req_at mem (d + i))"

definition chunk_error :: "vec_t \<Rightarrow> u8 list \<Rightarrow> nat \<Rightarrow> bool" where
  "chunk_error sh mem d \<longleftrightarrow> (\<exists>i<32. nibble_error (sh ! i) (mem ! (d + i)) \<noteq> 0)"

definition mask_round_or :: "vec_t \<Rightarrow> u32 \<Rightarrow> nat \<Rightarrow> u64 \<times> u32 \<times> u64 \<Rightarrow> u64 \<times> u32 \<times> u64" where
  "mask_round_or bytes high n = (\<lambda>(set_v, cont, req).
     let bit_v = mm256_slli_epi16 bytes n;
         set' = set_v AND ucast (mm256_movemask_epi8 bit_v);
         cont' = (if n = 1 then ucast (ucast high XOR set') else cont);
         req' = req OR push_bit n set'
     in (set', cont', req'))"

definition cont_masks_or :: "vec_t \<Rightarrow> u32 \<Rightarrow> u32 \<Rightarrow> u32 \<times> u64" where
  "cont_masks_or bytes high last_cont =
     (case fold (mask_round_or bytes high) [1, 2, 3] (ucast high, 0, ucast last_cont) of
        (set_v, cont, req) \<Rightarrow> (cont, req))"

definition z_body_or :: "bool \<Rightarrow> nat \<Rightarrow> u8 list \<Rightarrow> nat \<Rightarrow> u32 \<Rightarrow> vec_t \<Rightarrow> body_result" where
  "z_body_or strict addr mem data last_cont next_bytes =
     (case load_vec strict addr mem data of
        Inl f \<Rightarrow> Stop (Inl f)
      | Inr bytes \<Rightarrow>
          let high = mm256_movemask_epi8 bytes in
          if high OR last_cont = 0 then Next last_cont next_bytes
          else
            (case cont_masks_or bytes high last_cont of (cont, req) \<Rightarrow>
               if cont \<noteq> ucast req then Stop (Inr 0)
               else
                 let shifted_bytes = next_bytes in
                 if error_test shifted_bytes bytes = 0 then Stop (Inr 0)
                 else
                   (case load_vec strict addr mem (data + 31) of
                      Inl f \<Rightarrow> Stop (Inl f)
                    | Inr nb \<Rightarrow> Next (ucast (drop_bit 32 req)) nb)))"

function z_loop_or :: "bool \<Rightarrow> nat \<Rightarrow> u8 list \<Rightarrow> nat \<Rightarrow> int \<Rightarrow> u32 \<Rightarrow> vec_t \<Rightarrow> fault + int" where
  "z_loop_or strict addr mem data len last_cont next_bytes =
     (if len > 0 then
        (case z_body_or strict addr mem data last_cont next_bytes of
           Stop r \<Rightarrow> r
         | Next last_cont' next_bytes' \<Rightarrow> z_loop_or strict addr mem (data + 32) (len - 32) last_cont' next_bytes')
      else Inr (if last_cont = 0 then 1 else 0))"
  by pat_completeness auto

termination
  by (relation "measure (\<lambda>(strict, addr, mem, data, len, last_cont, next_bytes). nat len)") auto

definition z_validate_utf8_or :: "bool \<Rightarrow> nat \<Rightarrow> u8 list \<Rightarrow> int \<Rightarrow> fault + int" where
  "z_validate_utf8_or strict addr mem len =
     (case load_vec strict addr mem 0 of
        Inl f \<Rightarrow> Inl f
      | Inr first \<Rightarrow> z_loop_or strict addr mem 0 len 0 (v_shift_left first (mm256_set1_epi8 0)))"

fun z_loop_after :: "bool \<Rightarrow> nat \<Rightarrow> u8 list \<Rightarrow> nat \<Rightarrow> nat \<Rightarrow> int \<Rightarrow> u32 \<Rightarrow> vec_t \<Rightarrow> (nat \<times> int \<times> u32 \<times> vec_t) option" where
  "z_loop_after strict addr mem 0 data len last_cont next_bytes = Some (data, len, last_cont, next_bytes)"
| "z_loop_after strict addr mem (Suc k) data len last_cont next_bytes =
     (if len > 0 then
        (case z_body strict addr mem data last_cont next_bytes of
           Stop r \<Rightarrow> None
         | Next last_cont' next_bytes' \<Rightarrow> z_loop_after strict addr mem k (data + 32) (len - 32) last_cont' next_bytes')
      else None)"

definition z_state_at :: "bool \<Rightarrow> nat \<Rightarrow> u8 list \<Rightarrow> int \<Rightarrow> nat \<Rightarrow> (nat \<times> int \<times> u32 \<times> vec_t) option" where
  "z_state_at strict addr mem len k =
     (case load_vec strict addr mem 0 of
        Inl f \<Rightarrow> None
      | Inr first \<Rightarrow> z_loop_after strict addr mem k 0 len 0 (v_shift_left first (mm256_set1_epi8 0)))"

definition nb_ok :: "u8 list \<Rightarrow> nat \<Rightarrow> vec_t \<Rightarrow> bool" where
  "nb_ok mem d nb \<longleftrightarrow> length nb = 32 \<and>
     ((\<forall>i<32. nb ! i = (if d + i = 0 then 0 else mem ! (d + i - 1)))
      \<or> (\<forall>i<32. error_1 ! hi_nibble (nb ! i) = 0))"

definition sem_ok :: "u8 list \<Rightarrow> nat \<Rightarrow> bool" where
  "sem_ok mem n \<longleftrightarrow> (\<forall>i. 0 < i \<and> i < n \<longrightarrow> nibble_error (mem ! (i - 1)) (mem ! i) = 0)"

(*DEFS_END*)

section \<open>The intrinsics, byte lane by byte lane\<close>

lemma and_0F: "(x::u8) AND 0x0F = take_bit 4 x"
proof -
  have "(0x0F::u8) = mask 4" by (simp add: mask_eq_exp_minus_1)
  then show ?thesis by (simp only: take_bit_eq_mask)
qed

lemma movemask_bit:
  "bit (mm256_movemask_epi8 v) i \<longleftrightarrow> i < 32 \<and> i < length v \<and> bit (v ! i) 7"
  by (auto simp add: mm256_movemask_epi8_def bit_horner_sum_bit_word_iff)

lemma map_epi16_nth:
  "i < 32 \<Longrightarrow> map_epi16 f v ! i =
     (let w = f (epi16 v (i div 2)) in if even i then ucast w else ucast (drop_bit 8 w))"
  unfolding map_epi16_def by (simp del: upt_Suc)

lemma slli_bit7:
  "i < 32 \<Longrightarrow> n \<le> 7 \<Longrightarrow> bit (mm256_slli_epi16 v n ! i) 7 \<longleftrightarrow> bit (v ! i) (7 - n)"
  unfolding mm256_slli_epi16_def
  by (auto simp: map_epi16_nth Let_def epi16_def bit_simps dest: bit_imp_le_length)

lemma srli4_nth: "i < 32 \<Longrightarrow> mm256_srli_epi16 v 4 ! i AND 0x0F = drop_bit 4 (v ! i)"
  unfolding mm256_srli_epi16_def and_0F
  by (rule bit_eqI) (auto simp: map_epi16_nth Let_def epi16_def bit_simps dest: bit_imp_le_length)

lemma hi_nibble_lt: "hi_nibble b < 16"
proof -
  have "unat b < 2 ^ 8" using unsigned_less [of b] by simp
  then show ?thesis
    unfolding hi_nibble_def by (simp add: unat_drop_bit_eq drop_bit_eq_div unat_div)
qed

lemma lo_nibble_lt: "lo_nibble b < 16"
  unfolding lo_nibble_def and_0F
  by (simp add: unsigned_take_bit_eq take_bit_eq_mod unat_mod)

lemma lt16_cases:
  "(n::nat) < 16 \<Longrightarrow> n \<in> {0, 1, 2, 3, 4, 5, 6, 7, 8, 9, 10, 11, 12, 13, 14, 15}"
  by (simp add: insert_iff) arith

lemma error_1_nth:
  "n < 16 \<Longrightarrow> error_1 ! n =
     (if n = 12 then 0x01 else if n = 14 then 0x06 else if n = 15 then 0x18 else 0)"
  by (drule lt16_cases) (auto simp: error_1_def LOOKUP16_def)

lemma error_2_nth:
  "n < 16 \<Longrightarrow> error_2 ! n =
     (if n = 0 then 0x03 else if n = 1 then 0x01 else if n \<le> 3 then 0
      else if n = 4 then 0x08 else if n = 13 then 0x14 else 0x10)"
  by (drule lt16_cases) (auto simp: error_2_def LOOKUP16_def)

lemma error_3_nth:
  "n < 16 \<Longrightarrow> error_3 ! n =
     (if n < 8 then 0x11 else if n = 8 then 0x13 else if n = 9 then 0x1B
      else if n \<le> 11 then 0x1D else 0x19)"
  by (drule lt16_cases) (auto simp: error_3_def LOOKUP16_def)

lemma tables_classes:
  assumes "n1 < 16" "n2 < 16" "n3 < 16"
  shows "error_1 ! n1 AND error_2 ! n2 AND error_3 ! n3 \<noteq> 0 \<longleftrightarrow>
     (n1 = 12 \<and> n2 \<le> 1) \<or> (n1 = 14 \<and> n2 = 0 \<and> 8 \<le> n3 \<and> n3 \<le> 9)
     \<or> (n1 = 14 \<and> n2 = 13 \<and> 10 \<le> n3 \<and> n3 \<le> 11)
     \<or> (n1 = 15 \<and> n2 = 4 \<and> 9 \<le> n3) \<or> (n1 = 15 \<and> 5 \<le> n2)"
  using assms by (simp add: error_1_nth error_2_nth error_3_nth)

lemma LOOKUP16_nth:
  assumes "length xs = 16" "k < 16" "i < 32"
  shows "LOOKUP16 xs ! (16 * (i div 16) + k) = LOOKUP16 xs ! k"
proof -
  from assms have "i div 16 = 0 \<or> i div 16 = 1" by auto
  then show ?thesis
  proof
    assume "i div 16 = 0"
    then show ?thesis by simp
  next
    assume "i div 16 = 1"
    then show ?thesis using assms by (simp add: LOOKUP16_def nth_append)
  qed
qed

lemma error_tables_lane:
  assumes "k < 16" "i < 32"
  shows "error_1 ! (16 * (i div 16) + k) = error_1 ! k"
    and "error_2 ! (16 * (i div 16) + k) = error_2 ! k"
    and "error_3 ! (16 * (i div 16) + k) = error_3 ! k"
  unfolding error_1_def error_2_def error_3_def using assms by (simp_all add: LOOKUP16_nth)

lemma len_intrinsics [simp]:
  "length (mm256_srli_epi16 v n) = 32" "length (mm256_slli_epi16 v n) = 32"
  "length (mm256_shuffle_epi8 a b) = 32" "length mask_0F = 32"
  by (simp_all add: mm256_srli_epi16_def mm256_slli_epi16_def map_epi16_def
      mm256_shuffle_epi8_def mask_0F_def mm256_set1_epi8_def)

lemma len_and [simp]: "length (mm256_and_si256 a b) = min (length a) (length b)"
  by (simp add: mm256_and_si256_def)

lemma and_nth: "i < length a \<Longrightarrow> i < length b \<Longrightarrow> mm256_and_si256 a b ! i = a ! i AND b ! i"
  by (simp add: mm256_and_si256_def)

lemma mask_0F_nth: "i < 32 \<Longrightarrow> mask_0F ! i = 0x0F"
  by (simp add: mask_0F_def mm256_set1_epi8_def)

lemma shuffle_nth:
  "i < 32 \<Longrightarrow> mm256_shuffle_epi8 a b ! i =
     (if bit (b ! i) 7 then 0 else a ! (16 * (i div 16) + unat (b ! i AND 0x0F)))"
  unfolding mm256_shuffle_epi8_def by (simp del: upt_Suc)

lemma nibble_bit7: "\<not> bit (drop_bit 4 (x::u8)) 7" "\<not> bit (x AND 0x0F :: u8) 7"
  by (auto simp: and_0F bit_simps dest: bit_imp_le_length)

lemma nibble_idem:
  "drop_bit 4 (x::u8) AND 0x0F = drop_bit 4 x" "(x AND 0x0F) AND 0x0F = x AND (0x0F::u8)"
  unfolding and_0F by (rule bit_eqI; auto simp: bit_simps dest: bit_imp_le_length)+

lemma e_1_nth:
  "i < 32 \<Longrightarrow>
   mm256_shuffle_epi8 error_1 (mm256_and_si256 (mm256_srli_epi16 sh 4) mask_0F) ! i
     = error_1 ! hi_nibble (sh ! i)"
  using hi_nibble_lt [of "sh ! i"]
  by (simp add: shuffle_nth and_nth mask_0F_nth srli4_nth nibble_bit7 nibble_idem
      error_tables_lane flip: hi_nibble_def)

lemma e_3_nth:
  "i < 32 \<Longrightarrow>
   mm256_shuffle_epi8 error_3 (mm256_and_si256 (mm256_srli_epi16 bs 4) mask_0F) ! i
     = error_3 ! hi_nibble (bs ! i)"
  using hi_nibble_lt [of "bs ! i"]
  by (simp add: shuffle_nth and_nth mask_0F_nth srli4_nth nibble_bit7 nibble_idem
      error_tables_lane flip: hi_nibble_def)

lemma e_2_nth:
  "i < 32 \<Longrightarrow> length sh = 32 \<Longrightarrow>
   mm256_shuffle_epi8 error_2 (mm256_and_si256 sh mask_0F) ! i = error_2 ! lo_nibble (sh ! i)"
  using lo_nibble_lt [of "sh ! i"]
  by (simp add: shuffle_nth and_nth mask_0F_nth nibble_bit7 nibble_idem error_tables_lane
      flip: lo_nibble_def)

text \<open>The error test of a chunk passes exactly when no byte lane has a common error bit.\<close>

lemma error_test_eq:
  assumes "length sh = 32"
  shows "error_test sh bs = (if \<forall>i<32. nibble_error (sh ! i) (bs ! i) = 0 then 1 else 0)"
  unfolding error_test_def Let_def mm256_testz_si256_def
  using assms
  by (simp add: list_all_length and_nth e_1_nth e_2_nth e_3_nth nibble_error_def and.assoc
      flip: mm256_and_si256_def)

section \<open>The nibble tables\<close>

text \<open>
  C4. For a previous byte and a current byte, the AND of the three table lookups
  (\<open>error_1\<close> at the previous byte's high nibble, \<open>error_2\<close> at its low nibble, \<open>error_3\<close>
  at the current byte's high nibble) is nonzero exactly for the five disallowed classes:
  C,0-1,any; E,0,8-9; E,D,A-B; F,4,9-F; F,5-F,any.
\<close>

theorem nibble_error_classes:
  "nibble_error prev cur \<noteq> 0 \<longleftrightarrow>
     (hi_nibble prev = 0xC \<and> lo_nibble prev \<le> 1)
   \<or> (hi_nibble prev = 0xE \<and> lo_nibble prev = 0 \<and> 8 \<le> hi_nibble cur \<and> hi_nibble cur \<le> 9)
   \<or> (hi_nibble prev = 0xE \<and> lo_nibble prev = 0xD \<and> 0xA \<le> hi_nibble cur \<and> hi_nibble cur \<le> 0xB)
   \<or> (hi_nibble prev = 0xF \<and> lo_nibble prev = 4 \<and> 9 \<le> hi_nibble cur)
   \<or> (hi_nibble prev = 0xF \<and> 5 \<le> lo_nibble prev)"
  unfolding nibble_error_def
  using tables_classes [OF hi_nibble_lt [of prev] lo_nibble_lt [of prev] hi_nibble_lt [of cur]]
  by simp


lemma bit_lead_mask: "bit (lead_mask bs n) i \<longleftrightarrow> i < length bs \<and> i < 64 \<and> n \<le> leader_len (bs ! i)"
  by (auto simp: lead_mask_def bit_horner_sum_bit_word_iff)

lemma bit_shl_mask:
  "bit (shl_mask bs n) k \<longleftrightarrow> n \<le> k \<and> k - n < length bs \<and> k < 64 \<and> n \<le> leader_len (bs ! (k - n))"
  unfolding shl_mask_def bit_push_bit_iff bit_lead_mask by (auto simp: possible_bit_word)

lemma bit_cont_mask: "bit (cont_mask bs) i \<longleftrightarrow> i < length bs \<and> i < 32 \<and> is_cont (bs ! i)"
  by (auto simp: cont_mask_def bit_horner_sum_bit_word_iff)

lemma leader_len_ge:
  "Suc 0 \<le> leader_len b \<longleftrightarrow> bit b 7 \<and> bit b 6"
  "2 \<le> leader_len b \<longleftrightarrow> bit b 7 \<and> bit b 6 \<and> bit b 5"
  "3 \<le> leader_len b \<longleftrightarrow> bit b 7 \<and> bit b 6 \<and> bit b 5 \<and> bit b 4"
  by (auto simp: leader_len_def)

lemma round1: "length bs = 32 \<Longrightarrow>
   ucast (mm256_movemask_epi8 bs) AND ucast (mm256_movemask_epi8 (mm256_slli_epi16 bs 1)) = lead_mask bs 1"
  by (rule bit_eqI) (auto simp: bit_simps movemask_bit slli_bit7 bit_lead_mask leader_len_ge)

lemma round2: "length bs = 32 \<Longrightarrow>
   lead_mask bs 1 AND ucast (mm256_movemask_epi8 (mm256_slli_epi16 bs 2)) = lead_mask bs 2"
  by (rule bit_eqI) (auto simp: bit_simps movemask_bit slli_bit7 bit_lead_mask leader_len_ge)

lemma round3: "length bs = 32 \<Longrightarrow>
   lead_mask bs 2 AND ucast (mm256_movemask_epi8 (mm256_slli_epi16 bs 3)) = lead_mask bs 3"
  by (rule bit_eqI) (auto simp: bit_simps movemask_bit slli_bit7 bit_lead_mask leader_len_ge)

lemma round_cont: "length bs = 32 \<Longrightarrow>
   (ucast ((ucast (mm256_movemask_epi8 bs) :: u64) XOR lead_mask bs 1) :: u32) = cont_mask bs"
  by (rule bit_eqI) (auto simp: bit_simps movemask_bit bit_lead_mask leader_len_ge bit_cont_mask is_cont_def)

lemma cont_masks_eq:
  assumes "length bs = 32"
  shows "cont_masks bs (mm256_movemask_epi8 bs) lc = (cont_mask bs, req_sum lc bs)"
proof -
  let ?high = "mm256_movemask_epi8 bs"
  have r1: "mask_round bs ?high 1 (ucast ?high, 0, ucast lc) =
      (lead_mask bs 1, cont_mask bs, ucast lc + shl_mask bs 1)"
    unfolding mask_round_def Let_def prod.case shl_mask_def
    by (simp only: round1 [OF assms] round_cont [OF assms] refl if_True)
  have r2: "mask_round bs ?high 2 (lead_mask bs 1, c, r) = (lead_mask bs 2, c, r + shl_mask bs 2)" for c r
    unfolding mask_round_def Let_def prod.case shl_mask_def
    by (simp only: round2 [OF assms]) simp
  have r3: "mask_round bs ?high 3 (lead_mask bs 2, c, r) = (lead_mask bs 3, c, r + shl_mask bs 3)" for c r
    unfolding mask_round_def Let_def prod.case shl_mask_def
    by (simp only: round3 [OF assms]) simp
  show ?thesis
    unfolding cont_masks_def req_sum_def
    by (simp only: fold_simps comp_apply id_apply r1 r2 r3 prod.case)
qed

lemma word_take_bit_add:
  fixes a b :: "'a::len word"
  shows "take_bit n (take_bit n a + take_bit n b) = take_bit n (a + b)"
  by transfer (simp add: take_bit_add min_def)

lemma add_or_below:
  fixes x y :: "'a::len word"
  assumes "\<And>j. j < k \<Longrightarrow> \<not> (bit x j \<and> bit y j)"
  shows "take_bit k (x + y) = take_bit k (x OR y)"
proof -
  have d: "take_bit k x AND take_bit k y = 0"
    by (rule bit_eqI) (use assms in \<open>auto simp: bit_simps\<close>)
  have "take_bit k (x + y) = take_bit k (take_bit k x + take_bit k y)"
    by (rule word_take_bit_add [symmetric])
  also have "take_bit k x + take_bit k y = take_bit k x OR take_bit k y"
    using d by (rule disjunctive_add_eq_or)
  also have "take_bit k (take_bit k x OR take_bit k y) = take_bit k (x OR y)"
    by (rule bit_eqI) (auto simp: bit_simps)
  finally show ?thesis .
qed

lemma take_bit_add_cong:
  fixes x x' y :: "'a::len word"
  assumes "take_bit k x = take_bit k x'"
  shows "take_bit k (x + y) = take_bit k (x' + y)"
proof -
  have "take_bit k (x + y) = take_bit k (take_bit k x + take_bit k y)"
    by (rule word_take_bit_add [symmetric])
  also have "\<dots> = take_bit k (take_bit k x' + take_bit k y)" by (simp only: assms)
  also have "\<dots> = take_bit k (x' + y)" by (rule word_take_bit_add)
  finally show ?thesis .
qed

lemma add4_or_below:
  fixes L A B C :: "'a::len word"
  assumes "\<And>j. j < k \<Longrightarrow> \<not> overlap L A B C j"
  shows "take_bit k (L + A + B + C) = take_bit k (L OR A OR B OR C)"
proof -
  have 1: "take_bit k (L + A) = take_bit k (L OR A)"
    by (rule add_or_below) (use assms in \<open>auto simp: overlap_def\<close>)
  have 2: "take_bit k (L + A + B) = take_bit k ((L OR A) OR B)"
  proof -
    have "take_bit k (L + A + B) = take_bit k ((L OR A) + B)" by (rule take_bit_add_cong [OF 1])
    also have "\<dots> = take_bit k ((L OR A) OR B)"
      by (rule add_or_below) (use assms in \<open>auto simp: overlap_def bit_simps\<close>)
    finally show ?thesis .
  qed
  have "take_bit k (L + A + B + C) = take_bit k (((L OR A) OR B) + C)" by (rule take_bit_add_cong [OF 2])
  also have "\<dots> = take_bit k (((L OR A) OR B) OR C)"
    by (rule add_or_below) (use assms in \<open>auto simp: overlap_def bit_simps\<close>)
  finally show ?thesis by (simp add: or.assoc)
qed

lemma add4_eq_or:
  fixes L A B C :: "'a::len word"
  assumes "\<And>j. \<not> overlap L A B C j"
  shows "L + A + B + C = L OR A OR B OR C"
proof -
  have "take_bit LENGTH('a) (L + A + B + C) = take_bit LENGTH('a) (L OR A OR B OR C)"
    by (rule add4_or_below) (use assms in auto)
  then show ?thesis by simp
qed

lemma overlap_conflict:
  fixes L A B C :: "64 word"
  assumes a1: "\<And>k. bit A k \<Longrightarrow> 1 \<le> k \<and> k \<le> 32"
      and b1: "\<And>k. bit B k \<Longrightarrow> 2 \<le> k \<and> bit A (k - 1)"
      and c1: "\<And>k. bit C k \<Longrightarrow> 3 \<le> k \<and> bit B (k - 1)"
      and l1: "\<And>k. bit L k \<Longrightarrow> k < 3 \<and> (\<forall>j<k. bit L j)"
      and ov: "overlap L A B C k"
  shows "\<exists>c<k. c < 32 \<and> bit A (Suc c) \<and> bit (L OR A OR B OR C) c"
proof -
  from ov consider "bit L k" "bit A k" | "bit L k" "bit B k" | "bit L k" "bit C k"
    | "bit A k" "bit B k" | "bit A k" "bit C k" | "bit B k" "bit C k"
    unfolding overlap_def by blast
  then show ?thesis
  proof cases
    case 1
    with a1 [of k] l1 [of k] have "k - 1 < k" "k - 1 < 32" "bit A (Suc (k - 1))" "bit L (k - 1)" by auto
    then show ?thesis by (auto simp: bit_simps intro!: exI [of _ "k - 1"])
  next
    case 2
    with b1 [of k] l1 [of k] have k2: "k = 2" and "bit A (k - 1)" "\<forall>j<k. bit L j" by auto
    then have "k - 2 < k" "k - 2 < 32" "bit A (Suc (k - 2))" "bit L (k - 2)"
      by simp_all
    then show ?thesis by (auto simp: bit_simps intro!: exI [of _ "k - 2"])
  next
    case 3
    with c1 [of k] l1 [of k] show ?thesis by auto
  next
    case 4
    with a1 [of k] b1 [of k] have "k - 1 < k" "k - 1 < 32" "bit A (Suc (k - 1))" "bit A (k - 1)" by auto
    then show ?thesis by (auto simp: bit_simps intro!: exI [of _ "k - 1"])
  next
    case 5
    with a1 [of k] c1 [of k] have "k - 1 < k" "k - 1 < 32" "bit A (Suc (k - 1))" "bit B (k - 1)" by auto
    then show ?thesis by (auto simp: bit_simps intro!: exI [of _ "k - 1"])
  next
    case 6
    with b1 [of k] c1 [of k] b1 [of "k - 1"] a1 [of "k - 1"]
    have "k - 2 < k" "k - 2 < 32" "bit A (Suc (k - 2))" "bit A (k - 2)"
      by (auto simp: Suc_diff_Suc numeral_2_eq_2)
    then show ?thesis by (auto simp: bit_simps intro!: exI [of _ "k - 2"])
  qed
qed

lemma pass_no_overlap:
  fixes L A B C :: "64 word" and cont :: "32 word"
  assumes a1: "\<And>k. bit A k \<Longrightarrow> 1 \<le> k \<and> k \<le> 32"
      and b1: "\<And>k. bit B k \<Longrightarrow> 2 \<le> k \<and> bit A (k - 1)"
      and c1: "\<And>k. bit C k \<Longrightarrow> 3 \<le> k \<and> bit B (k - 1)"
      and l1: "\<And>k. bit L k \<Longrightarrow> k < 3 \<and> (\<forall>j<k. bit L j)"
      and ct: "\<And>c. bit cont c \<Longrightarrow> \<not> bit A (Suc c)"
      and pass: "cont = ucast (L + A + B + C) \<or> cont = ucast (L OR A OR B OR C)"
  shows "\<not> overlap L A B C k"
proof (induction k rule: less_induct)
  case (less k)
  show ?case
  proof
    assume "overlap L A B C k"
    from overlap_conflict [OF a1 b1 c1 l1 this]
    obtain c where c: "c < k" "c < 32" "bit A (Suc c)" "bit (L OR A OR B OR C) c" by blast
    have "take_bit k (L + A + B + C) = take_bit k (L OR A OR B OR C)"
      by (rule add4_or_below) (use less in auto)
    then have "bit (take_bit k (L + A + B + C)) c = bit (take_bit k (L OR A OR B OR C)) c" by simp
    with c have "bit (L + A + B + C) c" by (simp add: bit_simps)
    with c pass have "bit cont c" by (auto simp: bit_simps)
    with ct c show False by blast
  qed
qed

lemma pass_add_iff_or:
  fixes L A B C :: "64 word" and cont :: "32 word"
  assumes a1: "\<And>k. bit A k \<Longrightarrow> 1 \<le> k \<and> k \<le> 32"
      and b1: "\<And>k. bit B k \<Longrightarrow> 2 \<le> k \<and> bit A (k - 1)"
      and c1: "\<And>k. bit C k \<Longrightarrow> 3 \<le> k \<and> bit B (k - 1)"
      and l1: "\<And>k. bit L k \<Longrightarrow> k < 3 \<and> (\<forall>j<k. bit L j)"
      and ct: "\<And>c. bit cont c \<Longrightarrow> \<not> bit A (Suc c)"
  shows "cont = ucast (L + A + B + C) \<longleftrightarrow> cont = ucast (L OR A OR B OR C)"
    and "cont = ucast (L + A + B + C) \<or> cont = ucast (L OR A OR B OR C) \<Longrightarrow> L + A + B + C = L OR A OR B OR C"
proof -
  have *: "L + A + B + C = L OR A OR B OR C"
    if "cont = ucast (L + A + B + C) \<or> cont = ucast (L OR A OR B OR C)"
    by (rule add4_eq_or) (rule pass_no_overlap [OF a1 b1 c1 l1 ct that])
  then show "cont = ucast (L + A + B + C) \<or> cont = ucast (L OR A OR B OR C) \<Longrightarrow> L + A + B + C = L OR A OR B OR C" .
  from * show "cont = ucast (L + A + B + C) \<longleftrightarrow> cont = ucast (L OR A OR B OR C)" by auto
qed

lemma ex123: "(\<exists>m\<in>{1, 2, 3::nat}. P m) \<longleftrightarrow> P 1 \<or> P 2 \<or> P 3"
  by auto

lemma load_vec_Inr:
  "load_vec st ad mem d = Inr bs \<longleftrightarrow>
     \<not> (st \<and> \<not> 32 dvd (ad + d)) \<and> d + 32 \<le> length mem \<and> bs = take 32 (drop d mem)"
  by (auto simp: load_vec_def)

lemma load_vec_nth: "load_vec st ad mem d = Inr bs \<Longrightarrow> i < 32 \<Longrightarrow> bs ! i = mem ! (d + i)"
  by (auto simp: load_vec_def split: if_splits)

lemma load_vec_length: "load_vec st ad mem d = Inr bs \<Longrightarrow> length bs = 32"
  by (auto simp: load_vec_def split: if_splits)

lemma leader_len_le3: "leader_len b \<le> 3"
  by (simp add: leader_len_def)

lemma carry_bit_lt3: "carry_bit mem d k \<Longrightarrow> k < 3"
  by (auto simp: carry_bit_def)

lemma carry_bit_down:
  assumes "carry_bit mem d k" "j < k"
  shows "carry_bit mem d j"
proof -
  from assms(1) obtain m where m: "m = 1 \<or> m = 2 \<or> m = 3" "k < m" "m \<le> d + k"
      "m \<le> leader_len (mem ! (d + k - m))"
    unfolding carry_bit_def by auto
  define m' where "m' = m - (k - j)"
  have 2: "d + j - m' = d + k - m"
    unfolding m'_def using m(2,3) assms(2) by arith
  have 1: "m' = 1 \<or> m' = 2 \<or> m' = 3" "j < m'" "m' \<le> d + j" "m' \<le> m"
    unfolding m'_def using m(1,2,3) assms(2) by arith+
  from m(4) 1(4) have "m' \<le> leader_len (mem ! (d + j - m'))" unfolding 2 by simp
  with 1 show ?thesis unfolding carry_bit_def by auto
qed

lemma bit_carry_word: "bit (carry_word mem d) j \<longleftrightarrow> carry_bit mem d j"
proof (cases "j < 3")
  case True
  then have "map (carry_bit mem d) [0..<3] ! j = carry_bit mem d j"
    by (simp only: nth_map length_upt nth_upt diff_zero add_0)
  with True show ?thesis
    unfolding carry_word_def bit_horner_sum_bit_word_iff
    by (simp only: length_map length_upt diff_zero) simp
next
  case False
  then have "\<not> carry_bit mem d j" using carry_bit_lt3 [of mem d j] by blast
  with False show ?thesis
    unfolding carry_word_def bit_horner_sum_bit_word_iff
    by (simp only: length_map length_upt diff_zero) simp
qed

lemma carry_word_closed:
  assumes "bit (ucast (carry_word mem d) :: u64) k"
  shows "k < 3 \<and> (\<forall>j<k. bit (ucast (carry_word mem d) :: u64) j)"
proof -
  from assms have k: "carry_bit mem d k" by (simp add: bit_carry_word bit_ucast_iff)
  then have "k < 3" by (rule carry_bit_lt3)
  moreover have "bit (ucast (carry_word mem d) :: u64) j" if "j < k" for j
  proof -
    from k that have "carry_bit mem d j" by (rule carry_bit_down)
    moreover from that \<open>k < 3\<close> have "j < 64" by simp
    ultimately show ?thesis by (simp add: bit_ucast_iff bit_carry_word)
  qed
  ultimately show ?thesis by blast
qed

text \<open>The four summands of \<open>req\<close> for a chunk, and the facts the word lemmas need.\<close>

lemma chunk_terms:
  assumes "length bs = 32"
  shows "bit (shl_mask bs 1) k \<Longrightarrow> 1 \<le> k \<and> k \<le> 32"
    and "bit (shl_mask bs 2) k \<Longrightarrow> 2 \<le> k \<and> bit (shl_mask bs 1) (k - 1)"
    and "bit (shl_mask bs 3) k \<Longrightarrow> 3 \<le> k \<and> bit (shl_mask bs 2) (k - 1)"
    and "bit (cont_mask bs) k \<Longrightarrow> \<not> bit (shl_mask bs 1) (Suc k)"
proof -
  show "bit (shl_mask bs 1) k \<Longrightarrow> 1 \<le> k \<and> k \<le> 32"
    using assms by (auto simp: bit_shl_mask)
  show "bit (shl_mask bs 2) k \<Longrightarrow> 2 \<le> k \<and> bit (shl_mask bs 1) (k - 1)"
  proof -
    assume "bit (shl_mask bs 2) k"
    then have k: "2 \<le> k" "k - 2 < length bs" "k < 64" "2 \<le> leader_len (bs ! (k - 2))"
      by (auto simp: bit_shl_mask)
    then have "k - 1 - 1 = k - 2" by simp
    with k show ?thesis by (auto simp: bit_shl_mask)
  qed
  show "bit (shl_mask bs 3) k \<Longrightarrow> 3 \<le> k \<and> bit (shl_mask bs 2) (k - 1)"
  proof -
    assume "bit (shl_mask bs 3) k"
    then have k: "3 \<le> k" "k - 3 < length bs" "k < 64" "3 \<le> leader_len (bs ! (k - 3))"
      by (auto simp: bit_shl_mask)
    then have "k - 1 - 2 = k - 3" by simp
    with k show ?thesis by (auto simp: bit_shl_mask)
  qed
  show "bit (cont_mask bs) k \<Longrightarrow> \<not> bit (shl_mask bs 1) (Suc k)"
    by (auto simp: bit_shl_mask bit_cont_mask is_cont_def leader_len_ge)
qed

lemma per_m:
  "(i < m \<and> m \<le> d + i \<and> P (d + i - m)) \<or> (m \<le> i \<and> P (d + (i - m))) \<longleftrightarrow> m \<le> d + i \<and> P (d + i - m)"
  for i m d :: nat
  by (cases "m \<le> i") auto

lemma req_or_low:
  assumes bs: "load_vec st ad mem d = Inr bs" and i: "i < 32"
  shows "bit (req_or (carry_word mem d) bs) i \<longleftrightarrow> req_at mem (d + i)"
proof -
  have n: "bs ! (i - n) = mem ! (d + (i - n))" for n
    using load_vec_nth [OF bs, of "i - n"] i by simp
  have len: "length bs = 32" using bs by (rule load_vec_length)
  have "bit (ucast (carry_word mem d) OR shl_mask bs 1 OR shl_mask bs 2 OR shl_mask bs 3 :: u64) i
    \<longleftrightarrow> carry_bit mem d i \<or> (1 \<le> i \<and> 1 \<le> leader_len (mem ! (d + (i - 1))))
        \<or> (2 \<le> i \<and> 2 \<le> leader_len (mem ! (d + (i - 2))))
        \<or> (3 \<le> i \<and> 3 \<le> leader_len (mem ! (d + (i - 3))))"
    using i by (simp only: bit_or_iff bit_ucast_iff bit_carry_word bit_shl_mask n len) auto
  also have "\<dots> \<longleftrightarrow> req_at mem (d + i)"
    unfolding carry_bit_def req_at_def ex123
    using per_m [of i 1 d "\<lambda>p. 1 \<le> leader_len (mem ! p)"]
      per_m [of i 2 d "\<lambda>p. 2 \<le> leader_len (mem ! p)"]
      per_m [of i 3 d "\<lambda>p. 3 \<le> leader_len (mem ! p)"]
    by blast
  finally show ?thesis unfolding req_or_def .
qed

lemma req_or_high:
  assumes bs: "load_vec st ad mem d = Inr bs"
  shows "bit (req_or (carry_word mem d) bs) (32 + j) \<longleftrightarrow> carry_bit mem (d + 32) j"
proof -
  have len: "length bs = 32" using bs by (rule load_vec_length)
  have n: "32 + j - n < 32 \<Longrightarrow> n \<le> 3 \<Longrightarrow> bs ! (32 + j - n) = mem ! (d + 32 + j - n)" for n
    using load_vec_nth [OF bs, of "32 + j - n"] by (simp add: add.assoc)
  have lt: "carry_bit mem (d + 32) j \<Longrightarrow> j < 3" by (rule carry_bit_lt3)
  show ?thesis
    unfolding req_or_def bit_or_iff bit_ucast_iff bit_carry_word bit_shl_mask len carry_bit_def ex123
    using n [of 1] n [of 2] n [of 3] by auto
qed

lemma high_zero:
  assumes bs: "load_vec st ad mem d = Inr bs"
  shows "mm256_movemask_epi8 bs = 0 \<longleftrightarrow> chunk_ascii mem d"
proof -
  have len: "length bs = 32" using bs by (rule load_vec_length)
  have "mm256_movemask_epi8 bs = 0 \<longleftrightarrow> (\<forall>i<32. \<not> bit (bs ! i) 7)"
    by (auto simp: bit_eq_iff movemask_bit len)
  also have "\<dots> \<longleftrightarrow> chunk_ascii mem d"
    unfolding chunk_ascii_def using load_vec_nth [OF bs] by auto
  finally show ?thesis .
qed

lemma skip_test:
  assumes bs: "load_vec st ad mem d = Inr bs"
  shows "mm256_movemask_epi8 bs OR lc = 0 \<longleftrightarrow> chunk_ascii mem d \<and> lc = 0"
  by (simp add: or_eq_0_iff high_zero [OF bs])

lemma chunk_ascii_leader: "chunk_ascii mem d \<Longrightarrow> i < 32 \<Longrightarrow> leader_len (mem ! (d + i)) = 0"
  by (simp add: chunk_ascii_def leader_len_def)

lemma skip_carry:
  assumes "chunk_ascii mem d"
  shows "carry_word mem (d + 32) = 0"
proof -
  have z: "\<not> m \<le> leader_len (mem ! (d + 32 + j - m))" if "j < m" "1 \<le> m" "m \<le> 3" for m j
  proof -
    define p where "p = 32 + j - m"
    have e: "d + 32 + j - m = d + p" unfolding p_def using that by arith
    have p: "p < 32" unfolding p_def using that by arith
    have "leader_len (mem ! (d + p)) = 0" using assms p by (rule chunk_ascii_leader)
    with that show ?thesis unfolding e by arith
  qed
  have "\<not> carry_bit mem (d + 32) j" for j
    unfolding carry_bit_def ex123 using z [of j 1] z [of j 2] z [of j 3] by linarith
  then have "\<not> bit (carry_word mem (d + 32)) j" for j by (simp only: bit_carry_word not_False_eq_True)
  then show ?thesis by (simp add: bit_eq_iff)
qed

lemma struct_test:
  assumes bs: "load_vec st ad mem d = Inr bs"
  shows "cont_mask bs = ucast (req_or (carry_word mem d) bs) \<longleftrightarrow> chunk_struct mem d"
proof -
  have len: "length bs = 32" using bs by (rule load_vec_length)
  have "cont_mask bs = ucast (req_or (carry_word mem d) bs)
     \<longleftrightarrow> (\<forall>i<32. bit (cont_mask bs) i \<longleftrightarrow> bit (req_or (carry_word mem d) bs) i)"
    unfolding bit_eq_iff [of "cont_mask bs"] bit_ucast_iff
    by (auto simp: possible_bit_word dest: bit_imp_le_length)
  also have "\<dots> \<longleftrightarrow> chunk_struct mem d"
  proof -
    have "bit (cont_mask bs) i \<longleftrightarrow> is_cont (mem ! (d + i))" if "i < 32" for i
      using that by (simp add: bit_cont_mask len load_vec_nth [OF bs])
    then show ?thesis
      unfolding chunk_struct_def using req_or_low [OF bs] by blast
  qed
  finally show ?thesis .
qed

lemma add_or_chunk:
  assumes len: "length bs = 32"
  shows "cont_mask bs = ucast (req_sum (carry_word mem d) bs)
    \<longleftrightarrow> cont_mask bs = ucast (req_or (carry_word mem d) bs)"
   and "cont_mask bs = ucast (req_sum (carry_word mem d) bs)
      \<or> cont_mask bs = ucast (req_or (carry_word mem d) bs)
    \<Longrightarrow> req_sum (carry_word mem d) bs = req_or (carry_word mem d) bs"
proof -
  note T = chunk_terms [OF len]
  show "cont_mask bs = ucast (req_sum (carry_word mem d) bs)
    \<longleftrightarrow> cont_mask bs = ucast (req_or (carry_word mem d) bs)"
    unfolding req_sum_def req_or_def
    apply (rule pass_add_iff_or(1))
        apply (rule T(1), assumption)
       apply (rule T(2), assumption)
      apply (rule T(3), assumption)
     apply (rule carry_word_closed, assumption)
    apply (rule T(4), assumption)
    done
  show "cont_mask bs = ucast (req_sum (carry_word mem d) bs)
      \<or> cont_mask bs = ucast (req_or (carry_word mem d) bs)
    \<Longrightarrow> req_sum (carry_word mem d) bs = req_or (carry_word mem d) bs"
    unfolding req_sum_def req_or_def
    apply (rule pass_add_iff_or(2) [where cont = "cont_mask bs"])
         apply (rule T(1), assumption)
        apply (rule T(2), assumption)
       apply (rule T(3), assumption)
      apply (rule carry_word_closed, assumption)
     apply (rule T(4), assumption)
    apply assumption
    done
qed

lemma new_carry:
  assumes bs: "load_vec st ad mem d = Inr bs"
  shows "ucast (drop_bit 32 (req_or (carry_word mem d) bs)) = carry_word mem (d + 32)"
proof (rule bit_eqI)
  fix n
  assume "possible_bit TYPE(u32) n"
  then have n: "n < 32" by (simp add: possible_bit_word)
  have "bit (ucast (drop_bit 32 (req_or (carry_word mem d) bs)) :: u32) n
    \<longleftrightarrow> bit (req_or (carry_word mem d) bs) (32 + n)"
    using n unfolding bit_ucast_iff bit_drop_bit_eq by simp
  also have "\<dots> \<longleftrightarrow> carry_bit mem (d + 32) n" by (rule req_or_high [OF bs])
  finally show "bit (ucast (drop_bit 32 (req_or (carry_word mem d) bs)) :: u32) n
    \<longleftrightarrow> bit (carry_word mem (d + 32)) n"
    by (simp only: bit_carry_word)
qed

declare z_loop.simps [simp del] z_loop_or.simps [simp del]

lemma cont_masks_or_eq:
  assumes "length bs = 32"
  shows "cont_masks_or bs (mm256_movemask_epi8 bs) lc = (cont_mask bs, req_or lc bs)"
proof -
  let ?high = "mm256_movemask_epi8 bs"
  have r1: "mask_round_or bs ?high 1 (ucast ?high, 0, ucast lc) =
      (lead_mask bs 1, cont_mask bs, ucast lc OR shl_mask bs 1)"
    unfolding mask_round_or_def Let_def prod.case shl_mask_def
    by (simp only: round1 [OF assms] round_cont [OF assms] refl if_True)
  have r2: "mask_round_or bs ?high 2 (lead_mask bs 1, c, r) = (lead_mask bs 2, c, r OR shl_mask bs 2)" for c r
    unfolding mask_round_or_def Let_def prod.case shl_mask_def
    by (simp only: round2 [OF assms]) simp
  have r3: "mask_round_or bs ?high 3 (lead_mask bs 2, c, r) = (lead_mask bs 3, c, r OR shl_mask bs 3)" for c r
    unfolding mask_round_or_def Let_def prod.case shl_mask_def
    by (simp only: round3 [OF assms]) simp
  show ?thesis
    unfolding cont_masks_or_def req_or_def
    by (simp only: fold_simps comp_apply id_apply r1 r2 r3 prod.case or.assoc)
qed

lemma error_test_chunk:
  assumes bs: "load_vec st ad mem d = Inr bs" and nb: "length nb = 32"
  shows "error_test nb bs = 0 \<longleftrightarrow> chunk_error nb mem d"
  unfolding error_test_eq [OF nb] chunk_error_def using load_vec_nth [OF bs] by auto

text \<open>What the loop body does on a chunk, when it starts with the carry of the bytes before it.\<close>

lemma z_body_eq:
  assumes bs: "load_vec st ad mem d = Inr bs" and nb: "length nb = 32"
  shows "z_body st ad mem d (carry_word mem d) nb =
    (if chunk_ascii mem d \<and> carry_word mem d = 0 then Next (carry_word mem (d + 32)) nb
     else if \<not> chunk_struct mem d then Stop (Inr 0)
     else if chunk_error nb mem d then Stop (Inr 0)
     else (case load_vec st ad mem (d + 31) of
             Inl f \<Rightarrow> Stop (Inl f)
           | Inr nb' \<Rightarrow> Next (carry_word mem (d + 32)) nb'))"
proof -
  have len: "length bs = 32" using bs by (rule load_vec_length)
  let ?add = "req_sum (carry_word mem d) bs"
  let ?or = "req_or (carry_word mem d) bs"
  have pass: "cont_mask bs = ucast ?add \<longleftrightarrow> chunk_struct mem d"
    using add_or_chunk(1) [OF len, of mem d] struct_test [OF bs] by simp
  have eq: "chunk_struct mem d \<Longrightarrow> ?add = ?or"
    using add_or_chunk(2) [OF len, of mem d] pass by blast
  show ?thesis
  proof (cases "chunk_ascii mem d \<and> carry_word mem d = 0")
    case True
    then show ?thesis
      unfolding z_body_def bs sum.case Let_def
      by (simp add: skip_test [OF bs] high_zero [OF bs] skip_carry)
  next
    case False
    show ?thesis
    proof (cases "chunk_struct mem d")
      case s: True
      from False s show ?thesis
        unfolding z_body_def bs sum.case Let_def cont_masks_eq [OF len] prod.case
        by (auto simp add: skip_test [OF bs] pass eq struct_test [OF bs] new_carry [OF bs]
            error_test_chunk [OF bs nb] split: sum.split)
    next
      case s: False
      from False s show ?thesis
        unfolding z_body_def bs sum.case Let_def cont_masks_eq [OF len] prod.case
        by (auto simp add: skip_test [OF bs] pass)
    qed
  qed
qed

lemma z_body_or_eq:
  assumes bs: "load_vec st ad mem d = Inr bs" and nb: "length nb = 32"
  shows "z_body_or st ad mem d (carry_word mem d) nb =
    (if chunk_ascii mem d \<and> carry_word mem d = 0 then Next (carry_word mem (d + 32)) nb
     else if \<not> chunk_struct mem d then Stop (Inr 0)
     else if chunk_error nb mem d then Stop (Inr 0)
     else (case load_vec st ad mem (d + 31) of
             Inl f \<Rightarrow> Stop (Inl f)
           | Inr nb' \<Rightarrow> Next (carry_word mem (d + 32)) nb'))"
proof -
  have len: "length bs = 32" using bs by (rule load_vec_length)
  show ?thesis
  proof (cases "chunk_ascii mem d \<and> carry_word mem d = 0")
    case True
    then show ?thesis
      unfolding z_body_or_def bs sum.case Let_def
      by (simp add: skip_test [OF bs] high_zero [OF bs] skip_carry)
  next
    case False
    then show ?thesis
      unfolding z_body_or_def bs sum.case Let_def cont_masks_or_eq [OF len] prod.case
      by (auto simp add: skip_test [OF bs] struct_test [OF bs] new_carry [OF bs] error_test_chunk [OF bs nb]
            split: sum.split)
  qed
qed

lemma chunks_pos:
  assumes "0 < len"
  shows "chunks len = Suc (chunks (len - 32))"
proof -
  have "len + 31 = (len - 1) + 32" by simp
  then have "(len + 31) div 32 = (len - 1) div 32 + 1"
    by (simp only: div_add_self2)
  moreover have "0 \<le> (len - 1) div 32" using assms by (simp add: pos_imp_zdiv_nonneg_iff)
  ultimately show ?thesis unfolding chunks_def by simp
qed

lemma chunks_nonpos: "len \<le> 0 \<Longrightarrow> chunks len = 0"
  unfolding chunks_def by simp

lemma chunks_0_iff: "chunks len = 0 \<longleftrightarrow> len \<le> 0"
  unfolding chunks_def by auto

lemma chunks_aligned: "chunks (32 * int k) = k"
  unfolding chunks_def by simp

lemma z_loop_stop: "len \<le> 0 \<Longrightarrow> z_loop st ad mem d len lc nb = Inr (if lc = 0 then 1 else 0)"
  by (simp add: z_loop.simps)

lemma z_loop_step:
  "0 < len \<Longrightarrow> z_loop st ad mem d len lc nb =
     (case z_body st ad mem d lc nb of Stop r \<Rightarrow> r | Next lc' nb' \<Rightarrow> z_loop st ad mem (d + 32) (len - 32) lc' nb')"
  by (subst z_loop.simps) simp

lemma z_loop_or_stop: "len \<le> 0 \<Longrightarrow> z_loop_or st ad mem d len lc nb = Inr (if lc = 0 then 1 else 0)"
  by (simp add: z_loop_or.simps)

lemma z_loop_or_step:
  "0 < len \<Longrightarrow> z_loop_or st ad mem d len lc nb =
     (case z_body_or st ad mem d lc nb of Stop r \<Rightarrow> r | Next lc' nb' \<Rightarrow> z_loop_or st ad mem (d + 32) (len - 32) lc' nb')"
  by (subst z_loop_or.simps) simp

lemma v_shift_left_eq:
  assumes "length a = 32" "length b = 32"
  shows "v_shift_left a b = b ! 31 # take 31 a"
proof -
  have 1: "drop 31 b = [b ! 31]"
    using assms(2) by (simp add: list_eq_iff_nth_eq)
  have 2: "take 31 a = take 16 a @ take 15 (drop 16 a)"
    using take_add [of 16 15 a] by simp
  have 3: "take 16 a = take 15 a @ drop 15 (take 16 a)"
    using append_take_drop_id [of 15 "take 16 a"] by simp
  have "take 31 a = take 15 a @ drop 15 (take 16 a) @ take 15 (drop 16 a)"
    by (subst 2, subst 3) simp
  with 1 show ?thesis
    using assms
    by (simp add: v_shift_left_def mm256_permute2x128_si256_def select4_def mm256_alignr_epi8_def
        alignr_lane_def Let_def)
qed

lemma first_shift_length:
  "load_vec st ad mem 0 = Inr first \<Longrightarrow> length (v_shift_left first (mm256_set1_epi8 0)) = 32"
  by (simp add: v_shift_left_eq load_vec_length mm256_set1_epi8_def)

lemma carry_word_0: "carry_word mem 0 = 0"
proof -
  have "\<not> carry_bit mem 0 j" for j unfolding carry_bit_def ex123 by simp
  then have "\<not> bit (carry_word mem 0) j" for j by (simp only: bit_carry_word not_False_eq_True)
  then show ?thesis by (simp add: bit_eq_iff)
qed

lemma load_vec_cases:
  "load_vec st ad mem d = Inl Misaligned \<and> st \<and> \<not> 32 dvd (ad + d)
   \<or> load_vec st ad mem d = Inl Out_Of_Bounds \<and> \<not> d + 32 \<le> length mem
   \<or> load_vec st ad mem d = Inr (take 32 (drop d mem)) \<and> d + 32 \<le> length mem
        \<and> \<not> (st \<and> \<not> 32 dvd (ad + d))"
  by (simp add: load_vec_def)

lemma z_body_Inr:
  "load_vec st ad mem d = Inr bs \<Longrightarrow> z_body st ad mem d lc nb =
     (if mm256_movemask_epi8 bs OR lc = 0 then Next lc nb
      else if fst (cont_masks bs (mm256_movemask_epi8 bs) lc)
                \<noteq> ucast (snd (cont_masks bs (mm256_movemask_epi8 bs) lc)) then Stop (Inr 0)
      else if error_test nb bs = 0 then Stop (Inr 0)
      else (case load_vec st ad mem (d + 31) of
              Inl f \<Rightarrow> Stop (Inl f)
            | Inr nb' \<Rightarrow> Next (ucast (drop_bit 32 (snd (cont_masks bs (mm256_movemask_epi8 bs) lc)))) nb'))"
  by (simp add: z_body_def Let_def case_prod_beta)

lemma z_body_Inl: "load_vec st ad mem d = Inl f \<Longrightarrow> z_body st ad mem d lc nb = Stop (Inl f)"
  by (simp add: z_body_def)

lemma z_body_or_Inl: "load_vec st ad mem d = Inl f \<Longrightarrow> z_body_or st ad mem d lc nb = Stop (Inl f)"
  by (simp add: z_body_or_def)

lemma z_body_Next_load: "z_body st ad mem d lc nb = Next lc' nb' \<Longrightarrow> \<exists>bs. load_vec st ad mem d = Inr bs"
  by (cases "load_vec st ad mem d") (simp_all add: z_body_Inl)

lemma z_body_Stop_load:
  "z_body st ad mem d lc nb = Stop (Inr v) \<Longrightarrow> \<exists>bs. load_vec st ad mem d = Inr bs"
  by (cases "load_vec st ad mem d") (simp_all add: z_body_Inl)

lemma z_body_oob:
  assumes "z_body st ad mem d lc nb = Stop (Inl Out_Of_Bounds)"
  shows "\<not> d + 63 \<le> length mem"
proof (cases "load_vec st ad mem d")
  case (Inl f)
  with assms have "load_vec st ad mem d = Inl Out_Of_Bounds" by (simp add: z_body_Inl)
  with load_vec_cases [of st ad mem d] show ?thesis by auto
next
  case (Inr bs)
  from assms have "load_vec st ad mem (d + 31) = Inl Out_Of_Bounds"
    unfolding z_body_Inr [OF Inr] by (auto split: if_splits sum.splits)
  with load_vec_cases [of st ad mem "d + 31"] show ?thesis by auto
qed

lemma z_body_misaligned:
  assumes "z_body st ad mem d lc nb = Stop (Inl Misaligned)"
  shows "st"
proof (cases "load_vec st ad mem d")
  case (Inl f)
  with assms have "load_vec st ad mem d = Inl Misaligned" by (simp add: z_body_Inl)
  with load_vec_cases [of st ad mem d] show ?thesis by auto
next
  case (Inr bs)
  from assms have "load_vec st ad mem (d + 31) = Inl Misaligned"
    unfolding z_body_Inr [OF Inr] by (auto split: if_splits sum.splits)
  with load_vec_cases [of st ad mem "d + 31"] show ?thesis by auto
qed

lemma z_body_stop_value: "z_body st ad mem d lc nb = Stop (Inr v) \<Longrightarrow> v = 0"
proof (cases "load_vec st ad mem d")
  case (Inl f)
  then show "z_body st ad mem d lc nb = Stop (Inr v) \<Longrightarrow> v = 0" by (simp add: z_body_Inl)
next
  case (Inr bs)
  show "z_body st ad mem d lc nb = Stop (Inr v) \<Longrightarrow> v = 0"
    unfolding z_body_Inr [OF Inr] by (auto split: if_splits sum.splits)
qed

lemma z_body_next_length:
  assumes "z_body st ad mem d lc nb = Next lc' nb'" "length nb = 32"
  shows "length nb' = 32"
proof -
  from z_body_Next_load [OF assms(1)] obtain bs where bs: "load_vec st ad mem d = Inr bs" ..
  from assms show ?thesis
    unfolding z_body_Inr [OF bs] by (auto simp: load_vec_length split: if_splits sum.splits)
qed

text \<open>The loop returns 0 or 1 or stops in a load that faults.\<close>

lemma z_loop_values: "z_loop st ad mem d len lc nb = Inr v \<Longrightarrow> v = 0 \<or> v = 1"
proof (induction "chunks len" arbitrary: d len lc nb)
  case 0
  then have "len \<le> 0" by (simp add: chunks_0_iff)
  with 0 show ?case by (auto simp: z_loop_stop split: if_splits)
next
  case (Suc n)
  then have len: "0 < len" using chunks_0_iff [of len] by linarith
  with Suc(2) have n: "n = chunks (len - 32)" by (simp add: chunks_pos)
  show ?case
  proof (cases "z_body st ad mem d lc nb")
    case (Stop r)
    with Suc(3) len have "z_body st ad mem d lc nb = Stop (Inr v)" by (simp add: z_loop_step)
    then show ?thesis using z_body_stop_value by blast
  next
    case (Next lc' nb')
    with Suc(3) len have "z_loop st ad mem (d + 32) (len - 32) lc' nb' = Inr v" by (simp add: z_loop_step)
    from Suc(1) [OF n this] show ?thesis .
  qed
qed

text \<open>
  With \<open>31\<close> bytes readable after the last chunk no load of the loop is out of bounds, and
  when the loads take misaligned addresses the loop returns a verdict.
\<close>

lemma z_loop_in_bounds:
  "d + 32 * chunks len + 31 \<le> length mem \<Longrightarrow> z_loop st ad mem d len lc nb \<noteq> Inl Out_Of_Bounds"
proof (induction "chunks len" arbitrary: d len lc nb)
  case 0
  then have "len \<le> 0" by (simp add: chunks_0_iff)
  then show ?case by (simp add: z_loop_stop)
next
  case (Suc n)
  then have len: "0 < len" using chunks_0_iff [of len] by linarith
  with Suc(2) have n: "n = chunks (len - 32)" by (simp add: chunks_pos)
  from Suc(2,3) have mem: "d + 63 \<le> length mem" "d + 32 + 32 * chunks (len - 32) + 31 \<le> length mem"
    using n by simp_all
  show ?case
  proof (cases "z_body st ad mem d lc nb")
    case (Stop r)
    with z_body_oob [of st ad mem d lc nb] mem(1) len show ?thesis
      by (auto simp: z_loop_step)
  next
    case (Next lc' nb')
    with Suc(1) [OF n mem(2)] len show ?thesis by (simp add: z_loop_step)
  qed
qed

lemma z_loop_aligned_ok:
  "z_loop st ad mem d len lc nb = Inl Misaligned \<Longrightarrow> st"
proof (induction "chunks len" arbitrary: d len lc nb)
  case 0
  then have "len \<le> 0" by (simp add: chunks_0_iff)
  with 0 show ?case by (simp add: z_loop_stop)
next
  case (Suc n)
  then have len: "0 < len" using chunks_0_iff [of len] by linarith
  with Suc(2) have n: "n = chunks (len - 32)" by (simp add: chunks_pos)
  show ?case
  proof (cases "z_body st ad mem d lc nb")
    case (Stop r)
    with Suc(3) len have "z_body st ad mem d lc nb = Stop (Inl Misaligned)" by (simp add: z_loop_step)
    then show ?thesis by (rule z_body_misaligned)
  next
    case (Next lc' nb')
    with Suc(3) len have "z_loop st ad mem (d + 32) (len - 32) lc' nb' = Inl Misaligned"
      by (simp add: z_loop_step)
    from Suc(1) [OF n this] show ?thesis .
  qed
qed

lemma z_loop_total:
  assumes "\<not> st" "d + 32 * chunks len + 31 \<le> length mem"
  shows "z_loop st ad mem d len lc nb = Inr 0 \<or> z_loop st ad mem d len lc nb = Inr 1"
proof (cases "z_loop st ad mem d len lc nb")
  case (Inl f)
  with z_loop_in_bounds [OF assms(2), of st ad lc nb] z_loop_aligned_ok [of st ad mem d len lc nb] assms(1)
  show ?thesis by (cases f) auto
next
  case (Inr v)
  with z_loop_values [OF Inr] show ?thesis by auto
qed

lemma z_body_variants:
  assumes nb: "length nb = 32"
  shows "z_body_or st ad mem d (carry_word mem d) nb = z_body st ad mem d (carry_word mem d) nb"
proof (cases "load_vec st ad mem d")
  case (Inl f)
  then show ?thesis by (simp add: z_body_Inl z_body_or_Inl)
next
  case (Inr bs)
  show ?thesis by (simp only: z_body_eq [OF Inr nb] z_body_or_eq [OF Inr nb])
qed

lemma z_body_next_carry:
  assumes "z_body st ad mem d (carry_word mem d) nb = Next lc' nb'" and nb: "length nb = 32"
  shows "lc' = carry_word mem (d + 32)"
proof (cases "load_vec st ad mem d")
  case (Inl f)
  with assms show ?thesis by (simp add: z_body_Inl)
next
  case (Inr bs)
  from assms(1) show ?thesis
    unfolding z_body_eq [OF Inr nb] by (auto split: if_splits sum.splits)
qed

lemma z_loop_variants:
  "length nb = 32 \<Longrightarrow>
   z_loop_or st ad mem d len (carry_word mem d) nb = z_loop st ad mem d len (carry_word mem d) nb"
proof (induction "chunks len" arbitrary: d len nb)
  case 0
  then have "len \<le> 0" by (simp add: chunks_0_iff)
  then show ?case by (simp add: z_loop_stop z_loop_or_stop)
next
  case (Suc n)
  then have len: "0 < len" using chunks_0_iff [of len] by linarith
  with Suc(2) have n: "n = chunks (len - 32)" by (simp add: chunks_pos)
  show ?case
  proof (cases "z_body st ad mem d (carry_word mem d) nb")
    case (Stop r)
    with len Suc(3) show ?thesis by (simp add: z_loop_step z_loop_or_step z_body_variants)
  next
    case (Next lc' nb')
    from z_body_next_carry [OF Next Suc(3)] z_body_next_length [OF Next Suc(3)]
    have "lc' = carry_word mem (d + 32)" "length nb' = 32" .
    with Suc(1) [OF n, of nb' "d + 32"] Next len Suc(3) show ?thesis
      by (simp add: z_loop_step z_loop_or_step z_body_variants)
  qed
qed

text \<open>
  C5. The validator as written (\<open>req += set << n\<close>) and the variant that merges the
  shifted leader masks with bitwise OR return the same result on every memory and length
  (the same verdict, and the same faulting load where there is one), whatever the address
  of the buffer is and whether or not the vector loads trap on misaligned addresses.
\<close>

theorem add_variant_equals_or_variant:
  "z_validate_utf8_or strict addr mem len = z_validate_utf8 strict addr mem len"
proof (cases "load_vec strict addr mem 0")
  case (Inl f)
  then show ?thesis by (simp add: z_validate_utf8_def z_validate_utf8_or_def)
next
  case (Inr first)
  from z_loop_variants [OF first_shift_length [OF Inr], of strict addr mem 0 len] Inr
  show ?thesis by (simp add: z_validate_utf8_def z_validate_utf8_or_def carry_word_0)
qed

lemma z_loop_after_carry:
  "z_loop_after st ad mem k d len (carry_word mem d) nb = Some (d', len', lc', nb') \<Longrightarrow> length nb = 32 \<Longrightarrow>
   d' = d + 32 * k \<and> len' = len - 32 * int k \<and> lc' = carry_word mem d' \<and> length nb' = 32"
proof (induction k arbitrary: d len nb)
  case 0
  then show ?case by auto
next
  case (Suc k)
  from Suc(2) have len: "0 < len" by (simp split: if_splits)
  from Suc(2) len obtain lc1 nb1 where b: "z_body st ad mem d (carry_word mem d) nb = Next lc1 nb1"
    and r: "z_loop_after st ad mem k (d + 32) (len - 32) lc1 nb1 = Some (d', len', lc', nb')"
    by (auto split: body_result.splits)
  from z_body_next_carry [OF b Suc(3)] z_body_next_length [OF b Suc(3)]
  have 1: "lc1 = carry_word mem (d + 32)" "length nb1 = 32" .
  from Suc(1) [OF r [unfolded 1(1)] 1(2)] show ?case by simp
qed

lemma z_loop_after_loop:
  "z_loop_after st ad mem k d len lc nb = Some (d', len', lc', nb') \<Longrightarrow>
   z_loop st ad mem d len lc nb = z_loop st ad mem d' len' lc' nb'"
proof (induction k arbitrary: d len lc nb)
  case 0
  then show ?case by simp
next
  case (Suc k)
  from Suc(2) have len: "0 < len" by (simp split: if_splits)
  from Suc(2) len obtain lc1 nb1 where b: "z_body st ad mem d lc nb = Next lc1 nb1"
    and r: "z_loop_after st ad mem k (d + 32) (len - 32) lc1 nb1 = Some (d', len', lc', nb')"
    by (auto split: body_result.splits)
  from Suc(1) [OF r] b len show ?case by (simp add: z_loop_step)
qed

text \<open>
  C7. \<open>z_state_at strict addr mem len k\<close> is the state of the loop variables after \<open>k\<close> complete
  iterations, none of which returned. In it \<open>data\<close> is at offset \<open>32 * k\<close>; before the first
  chunk \<open>last_cont\<close> is 0; and after chunk \<open>k - 1\<close> bit \<open>j\<close> of \<open>last_cont\<close> is set exactly when
  a leader among the last three bytes of that chunk (\<open>m\<close> bytes before position \<open>j\<close> of the
  next chunk, \<open>j < m \<le> 3\<close>) announces at least \<open>m\<close> continuation bytes.
\<close>

theorem carry_invariant:
  assumes "z_state_at strict addr mem len k = Some (d, l, last_cont, next_bytes)"
  shows "d = 32 * k \<and> (k = 0 \<longrightarrow> last_cont = 0) \<and>
     (0 < k \<longrightarrow> (\<forall>j. bit last_cont j \<longleftrightarrow>
        (\<exists>m\<in>{1, 2, 3}. j < m \<and> m \<le> leader_len (mem ! (32 * k + j - m)))))"
proof -
  from assms obtain first where f: "load_vec strict addr mem 0 = Inr first"
    and a: "z_loop_after strict addr mem k 0 len (carry_word mem 0) (v_shift_left first (mm256_set1_epi8 0))
       = Some (d, l, last_cont, next_bytes)"
    by (auto simp: z_state_at_def carry_word_0 split: sum.splits)
  from z_loop_after_carry [OF a first_shift_length [OF f]]
  have d: "d = 32 * k" and lc: "last_cont = carry_word mem (32 * k)" by simp_all
  have "bit last_cont j \<longleftrightarrow> (\<exists>m\<in>{1, 2, 3}. j < m \<and> m \<le> leader_len (mem ! (32 * k + j - m)))"
    if "0 < k" for j
    unfolding lc bit_carry_word carry_bit_def ex123 using that by auto
  with d lc show ?thesis by (auto simp: carry_word_0)
qed

theorem carry_invariant_witness:
  "z_state_at False 0 (replicate 31 0x41 @ [0xE2, 0x82, 0xAC] @ replicate 61 0x41) 64 1
     = Some (32, 32, 3, [0xE2, 0x82, 0xAC] @ replicate 29 0x41)
   \<and> (\<forall>j. bit (3 :: u32) j \<longleftrightarrow>
        (\<exists>m\<in>{1, 2, 3}. j < m \<and>
           m \<le> leader_len ((replicate 31 0x41 @ [0xE2, 0x82, 0xAC] @ replicate 61 0x41) ! (32 * 1 + j - m))))"
proof -
  have h: "z_state_at False 0 (replicate 31 0x41 @ [0xE2, 0x82, 0xAC] @ replicate 61 0x41) 64 1
     = Some (32, 32, 3, [0xE2, 0x82, 0xAC] @ replicate 29 0x41)"
    by code_simp
  from carry_invariant [OF h] h show ?thesis by simp
qed


lemma load_vec_agree:
  assumes "take n m1 = take n m2" "d + 32 \<le> n" "load_vec st a1 m1 d = Inr b1" "load_vec st a2 m2 d = Inr b2"
  shows "b1 = b2"
proof -
  have a: "take 32 (drop d m) = take 32 (drop d (take n m))" for m :: "u8 list"
    using assms(2) by (simp add: drop_take)
  from assms(3) have "b1 = take 32 (drop d m1)" by (simp add: load_vec_Inr)
  also have "\<dots> = take 32 (drop d (take n m1))" by (rule a)
  also have "\<dots> = take 32 (drop d (take n m2))" by (simp only: assms(1))
  also have "\<dots> = take 32 (drop d m2)" by (rule a [symmetric])
  also from assms(4) have "\<dots> = b2" by (simp add: load_vec_Inr)
  finally show ?thesis .
qed

lemma z_body_agree:
  assumes ag: "take n m1 = take n m2" and n: "d + 32 \<le> n"
    and nf: "\<And>f. z_body st a1 m1 d lc nb \<noteq> Stop (Inl f)" "\<And>f. z_body st a2 m2 d lc nb \<noteq> Stop (Inl f)"
  shows "(\<exists>v. z_body st a1 m1 d lc nb = Stop (Inr v) \<and> z_body st a2 m2 d lc nb = Stop (Inr v)) \<or>
         (\<exists>lc' n1 n2. z_body st a1 m1 d lc nb = Next lc' n1 \<and> z_body st a2 m2 d lc nb = Next lc' n2
             \<and> (d + 63 \<le> n \<longrightarrow> n1 = n2))"
proof -
  from nf(1) obtain bs where l1: "load_vec st a1 m1 d = Inr bs"
    by (cases "load_vec st a1 m1 d") (auto simp: z_body_Inl)
  from nf(2) obtain bs2 where l2': "load_vec st a2 m2 d = Inr bs2"
    by (cases "load_vec st a2 m2 d") (auto simp: z_body_Inl)
  have "bs2 = bs" using load_vec_agree [OF ag n l1 l2'] by simp
  with l2' have l2: "load_vec st a2 m2 d = Inr bs" by simp
  note u1 = z_body_Inr [OF l1, of lc nb] and u2 = z_body_Inr [OF l2, of lc nb]
  let ?skip = "mm256_movemask_epi8 bs OR lc = 0"
  let ?bad = "fst (cont_masks bs (mm256_movemask_epi8 bs) lc)
                \<noteq> ucast (snd (cont_masks bs (mm256_movemask_epi8 bs) lc))"
  let ?err = "error_test nb bs = 0"
  consider "?skip" | "\<not> ?skip" "?bad" | "\<not> ?skip" "\<not> ?bad" "?err" | "\<not> ?skip" "\<not> ?bad" "\<not> ?err"
    by blast
  then show ?thesis
  proof cases
    case 1
    then show ?thesis unfolding u1 u2 by simp
  next
    case 2
    then show ?thesis unfolding u1 u2 by simp
  next
    case 3
    then show ?thesis unfolding u1 u2 by simp
  next
    case 4
    from nf(1) 4 obtain x1 where x1: "load_vec st a1 m1 (d + 31) = Inr x1"
      unfolding u1 by (cases "load_vec st a1 m1 (d + 31)") auto
    from nf(2) 4 obtain x2 where x2: "load_vec st a2 m2 (d + 31) = Inr x2"
      unfolding u2 by (cases "load_vec st a2 m2 (d + 31)") auto
    have "d + 63 \<le> n \<Longrightarrow> x1 = x2"
      using load_vec_agree [OF ag _ x1 x2] by simp
    with 4 show ?thesis unfolding u1 u2 x1 x2 by simp
  qed
qed

lemma z_loop_agree:
  assumes "take (d + 32 * chunks len) m1 = take (d + 32 * chunks len) m2"
    and "0 < len \<longrightarrow> nb1 = nb2"
    and "z_loop st a1 m1 d len lc nb1 = Inr v1" "z_loop st a2 m2 d len lc nb2 = Inr v2"
  shows "v1 = v2"
  using assms
proof (induction "chunks len" arbitrary: d len lc nb1 nb2)
  case 0
  then have "len \<le> 0" by (simp add: chunks_0_iff)
  with 0 show ?case by (simp add: z_loop_stop)
next
  case (Suc n)
  then have len: "0 < len" using chunks_0_iff [of len] by linarith
  with Suc(2) have n: "n = chunks (len - 32)" and c: "chunks len = Suc n" by (simp_all add: chunks_pos)
  from Suc(4) len have nb: "nb2 = nb1" by simp
  let ?N = "d + 32 * chunks len"
  have N: "d + 32 \<le> ?N" unfolding c by simp
  from Suc(5) len have nf1: "z_body st a1 m1 d lc nb1 \<noteq> Stop (Inl f)" for f
    by (auto simp: z_loop_step)
  from Suc(6) len have nf2: "z_body st a2 m2 d lc nb1 \<noteq> Stop (Inl f)" for f
    by (auto simp: z_loop_step nb)
  from z_body_agree [OF Suc(3) N nf1 nf2]
  consider v where "z_body st a1 m1 d lc nb1 = Stop (Inr v)" "z_body st a2 m2 d lc nb1 = Stop (Inr v)"
    | lc' n1 n2 where "z_body st a1 m1 d lc nb1 = Next lc' n1" "z_body st a2 m2 d lc nb1 = Next lc' n2"
        "d + 63 \<le> ?N \<longrightarrow> n1 = n2"
    by blast
  then show ?case
  proof cases
    case 1
    with Suc(5,6) len show ?thesis by (simp add: z_loop_step nb)
  next
    case 2
    have t: "take (d + 32 + 32 * chunks (len - 32)) m1 = take (d + 32 + 32 * chunks (len - 32)) m2"
      using Suc(3) unfolding c n [symmetric] by (simp add: add.assoc)
    have e: "0 < len - 32 \<longrightarrow> n1 = n2"
    proof
      assume "0 < len - 32"
      then have "chunks (len - 32) \<noteq> 0" by (simp add: chunks_0_iff)
      then have "d + 63 \<le> ?N" unfolding c n by simp
      with 2(3) show "n1 = n2" by simp
    qed
    from Suc(5,6) len 2 have "z_loop st a1 m1 (d + 32) (len - 32) lc' n1 = Inr v1"
      "z_loop st a2 m2 (d + 32) (len - 32) lc' n2 = Inr v2" by (simp_all add: z_loop_step nb)
    from Suc(1) [OF n t e this] show ?thesis .
  qed
qed

text \<open>
  C9. For a positive length that is not a multiple of 32, two runs that return a verdict
  on memories agreeing on the first \<open>32 * ceil (len / 32)\<close> bytes return the same verdict,
  wherever the two buffers lie;
  and there are a length and two memories that agree on the first \<open>len\<close> bytes, differ
  after them, and get different verdicts (at an aligned address, whether or not the loads
  trap on misaligned ones).
\<close>

theorem verdict_depends_on_rounded_length:
  "(\<forall>strict a1 a2 len m1 m2 v1 v2. 0 < len \<and> \<not> 32 dvd len
       \<and> take (32 * chunks len) m1 = take (32 * chunks len) m2
       \<and> z_validate_utf8 strict a1 m1 len = Inr v1 \<and> z_validate_utf8 strict a2 m2 len = Inr v2
       \<longrightarrow> v1 = v2)
   \<and> (\<forall>strict. \<exists>len m1 m2. 0 < len \<and> \<not> 32 dvd len \<and> take (nat len) m1 = take (nat len) m2
       \<and> z_validate_utf8 strict 0 m1 len = Inr 1 \<and> z_validate_utf8 strict 0 m2 len = Inr 0)"
proof (intro conjI allI impI)
  fix st :: bool and a1 a2 :: nat and len :: int and m1 m2 :: "u8 list" and v1 v2 :: int
  assume a: "0 < len \<and> \<not> 32 dvd len
       \<and> take (32 * chunks len) m1 = take (32 * chunks len) m2
       \<and> z_validate_utf8 st a1 m1 len = Inr v1 \<and> z_validate_utf8 st a2 m2 len = Inr v2"
  then have len: "0 < len" and t: "take (32 * chunks len) m1 = take (32 * chunks len) m2"
    and r1: "z_validate_utf8 st a1 m1 len = Inr v1" and r2: "z_validate_utf8 st a2 m2 len = Inr v2" by blast+
  from r1 obtain f1 where f1: "load_vec st a1 m1 0 = Inr f1"
    by (auto simp: z_validate_utf8_def split: sum.splits)
  from r2 obtain f2 where f2: "load_vec st a2 m2 0 = Inr f2"
    by (auto simp: z_validate_utf8_def split: sum.splits)
  from len have "chunks len \<noteq> 0" by (simp add: chunks_0_iff)
  then have "0 + 32 \<le> 32 * chunks len" by simp
  from load_vec_agree [OF t this f1 f2] have f: "f2 = f1" by simp
  from r1 r2 have "z_loop st a1 m1 0 len 0 (v_shift_left f1 (mm256_set1_epi8 0)) = Inr v1"
    "z_loop st a2 m2 0 len 0 (v_shift_left f1 (mm256_set1_epi8 0)) = Inr v2"
    by (simp_all add: z_validate_utf8_def f1 f2 f)
  from z_loop_agree [of 0 len m1 m2, OF _ _ this] t show "v1 = v2" by simp
next
  fix st :: bool
  have "0 < (1::int) \<and> \<not> 32 dvd (1::int)
      \<and> take (nat 1) (0x41 # replicate 31 (0::u8)) = take (nat 1) ([0x41, 0xFF] @ replicate 30 0)
      \<and> z_validate_utf8 st 0 (0x41 # replicate 31 0) 1 = Inr 1
      \<and> z_validate_utf8 st 0 ([0x41, 0xFF] @ replicate 30 0) 1 = Inr 0"
    by (cases st; simp only: ; code_simp)
  then show "\<exists>len m1 m2. 0 < len \<and> \<not> 32 dvd len \<and> take (nat len) m1 = take (nat len) m2
       \<and> z_validate_utf8 st 0 m1 len = Inr 1 \<and> z_validate_utf8 st 0 m2 len = Inr 0"
    by blast
qed

theorem verdict_depends_on_rounded_length_witness:
  "0 < (1::int) \<and> \<not> 32 dvd (1::int)
   \<and> take (32 * chunks 1) (0x41 # replicate 31 (0::u8)) = take (32 * chunks 1) (0x41 # replicate 31 0 @ replicate 31 0xFF)
   \<and> z_validate_utf8 True 0 (0x41 # replicate 31 0) 1 = Inr 1
   \<and> z_validate_utf8 True 64 (0x41 # replicate 31 0 @ replicate 31 0xFF) 1 = Inr 1"
proof -
  have h: "0 < (1::int) \<and> \<not> 32 dvd (1::int)
   \<and> take (32 * chunks 1) (0x41 # replicate 31 (0::u8)) = take (32 * chunks 1) (0x41 # replicate 31 0 @ replicate 31 0xFF)
   \<and> z_validate_utf8 True 0 (0x41 # replicate 31 0) 1 = Inr 1"
    by code_simp
  have "z_validate_utf8 True 64 (0x41 # replicate 31 0 @ replicate 31 0xFF) 1 \<noteq> Inl Misaligned"
    "z_validate_utf8 True 64 (0x41 # replicate 31 0 @ replicate 31 0xFF) 1 \<noteq> Inl Out_Of_Bounds"
    by code_simp+
  then obtain v where v: "z_validate_utf8 True 64 (0x41 # replicate 31 0 @ replicate 31 0xFF) 1 = Inr v"
    by (cases "z_validate_utf8 True 64 (0x41 # replicate 31 0 @ replicate 31 0xFF) 1")
      (metis fault.exhaust, blast)
  from verdict_depends_on_rounded_length h v have "1 = v" by blast
  with h v show ?thesis by simp
qed

lemma skip_struct:
  assumes a: "chunk_ascii mem d" and c: "carry_word mem d = 0"
  shows "chunk_struct mem d"
  unfolding chunk_struct_def
proof (intro allI impI)
  fix i :: nat
  assume i: "i < 32"
  from a i have nc: "\<not> is_cont (mem ! (d + i))" by (simp add: chunk_ascii_def is_cont_def)
  have "\<not> carry_bit mem d i" using bit_carry_word [of mem d i] c by simp
  then have nocarry: "\<not> (i < m \<and> m \<le> d + i \<and> m \<le> leader_len (mem ! (d + i - m)))"
    if "m = 1 \<or> m = 2 \<or> m = 3" for m
    using that unfolding carry_bit_def ex123 by blast
  have inchunk: "\<not> (m \<le> i \<and> m \<le> leader_len (mem ! (d + i - m)))" if "0 < m" for m
  proof
    assume m: "m \<le> i \<and> m \<le> leader_len (mem ! (d + i - m))"
    then have 1: "m \<le> i" and 2: "m \<le> leader_len (mem ! (d + i - m))" by blast+
    from 1 have e: "d + i - m = d + (i - m)" by simp
    from i have "i - m < 32" by simp
    with a have 3: "leader_len (mem ! (d + (i - m))) = 0" by (rule chunk_ascii_leader)
    from 2 have "m \<le> leader_len (mem ! (d + (i - m)))" by (simp only: e)
    with 3 that show False by simp
  qed
  have no: "\<not> (m \<le> d + i \<and> m \<le> leader_len (mem ! (d + i - m)))"
    if m: "m = 1 \<or> m = 2 \<or> m = 3" for m
  proof (cases "m \<le> i")
    case True
    with inchunk [of m] m show ?thesis by auto
  next
    case False
    with nocarry [OF m] show ?thesis by auto
  qed
  have "\<not> req_at mem (d + i)"
    unfolding req_at_def ex123 using no [of 1] no [of 2] no [of 3] by blast
  with nc show "is_cont (mem ! (d + i)) \<longleftrightarrow> req_at mem (d + i)" by simp
qed

lemma z_loop_accept:
  assumes "length nb = 32" "z_loop st ad mem d len (carry_word mem d) nb = Inr 1"
  shows "carry_word mem (d + 32 * chunks len) = 0 \<and> (\<forall>c<chunks len. chunk_struct mem (d + 32 * c))"
  using assms
proof (induction "chunks len" arbitrary: d len nb)
  case 0
  then have "len \<le> 0" by (simp add: chunks_0_iff)
  with 0 show ?case by (simp add: z_loop_stop split: if_splits)
next
  case (Suc n)
  then have len: "0 < len" using chunks_0_iff [of len] by linarith
  with Suc(2) have n: "n = chunks (len - 32)" and c: "chunks len = Suc n" by (simp_all add: chunks_pos)
  show ?case
  proof (cases "z_body st ad mem d (carry_word mem d) nb")
    case (Stop r)
    with Suc(4) len have "r = Inr 1" by (simp add: z_loop_step)
    with Stop z_body_stop_value [of st ad mem d "carry_word mem d" nb 1] show ?thesis by simp
  next
    case (Next lc' nb')
    from z_body_Next_load [OF Next] obtain bs where bs: "load_vec st ad mem d = Inr bs" ..
    from z_body_next_carry [OF Next Suc(3)] z_body_next_length [OF Next Suc(3)]
    have 1: "lc' = carry_word mem (d + 32)" "length nb' = 32" .
    from Next have s: "chunk_struct mem d"
      unfolding z_body_eq [OF bs Suc(3)] using skip_struct [of mem d]
      by (auto split: if_splits)
    from Suc(4) len Next 1 have "z_loop st ad mem (d + 32) (len - 32) (carry_word mem (d + 32)) nb' = Inr 1"
      by (simp add: z_loop_step)
    from Suc(1) [OF n 1(2) this]
    have ih: "carry_word mem (d + 32 + 32 * n) = 0" "\<forall>c<n. chunk_struct mem (d + 32 + 32 * c)"
      unfolding n by simp_all
    have "chunk_struct mem (d + 32 * c)" if "c < Suc n" for c
    proof (cases c)
      case 0
      with s show ?thesis by simp
    next
      case (Suc c')
      with that ih(2) have "chunk_struct mem (d + 32 + 32 * c')" by simp
      then show ?thesis unfolding Suc by (simp add: add.assoc)
    qed
    with ih(1) show ?thesis unfolding c by (simp add: add.assoc)
  qed
qed


lemma chunks_ge: "0 < len \<Longrightarrow> nat len \<le> 32 * chunks len"
proof -
  assume "0 < len"
  have "len \<le> 32 * ((len + 31) div 32)"
    using div_mult_mod_eq [of "len + 31" 32] pos_mod_bound [of 32 "len + 31"] by linarith
  moreover have "0 \<le> (len + 31) div 32" using \<open>0 < len\<close> by (simp add: pos_imp_zdiv_nonneg_iff)
  ultimately show ?thesis unfolding chunks_def by linarith
qed

lemma chunks_dvd: "32 dvd len \<Longrightarrow> 0 \<le> len \<Longrightarrow> 32 * chunks len = nat len"
proof -
  assume "32 dvd len" "0 \<le> len"
  then obtain k where k: "len = 32 * k" by (auto simp: dvd_def)
  with \<open>0 \<le> len\<close> have "0 \<le> k" by simp
  then obtain n where n: "k = int n" using nonneg_int_cases by blast
  show ?thesis unfolding k n chunks_aligned by simp
qed

lemma chunks_lt: "0 < len \<Longrightarrow> \<not> 32 dvd len \<Longrightarrow> nat len < 32 * chunks len"
proof -
  assume len: "0 < len" and nd: "\<not> 32 dvd len"
  have "nat len \<noteq> 32 * chunks len"
  proof
    assume "nat len = 32 * chunks len"
    with len have "len = 32 * int (chunks len)" by linarith
    then have "32 dvd len" by (rule dvdI)
    with nd show False by simp
  qed
  with chunks_ge [OF len] show ?thesis by simp
qed

lemma validate_Inr1:
  assumes "z_validate_utf8 st ad mem len = Inr 1"
  shows "carry_word mem (32 * chunks len) = 0 \<and> (\<forall>c<chunks len. chunk_struct mem (32 * c))"
proof -
  from assms obtain first where f: "load_vec st ad mem 0 = Inr first"
    by (auto simp: z_validate_utf8_def split: sum.splits)
  with assms have "z_loop st ad mem 0 len (carry_word mem 0) (v_shift_left first (mm256_set1_epi8 0)) = Inr 1"
    by (simp add: z_validate_utf8_def carry_word_0)
  from z_loop_accept [OF first_shift_length [OF f] this] show ?thesis by simp
qed

lemma validate_in_bounds:
  assumes "32 \<le> length mem" "32 * chunks len + 31 \<le> length mem"
  shows "z_validate_utf8 st ad mem len \<noteq> Inl Out_Of_Bounds"
proof (cases "load_vec st ad mem 0")
  case (Inl f)
  with load_vec_cases [of st ad mem 0] assms(1) show ?thesis
    by (auto simp: z_validate_utf8_def)
next
  case (Inr first)
  with z_loop_in_bounds [of 0 len mem st ad] assms(2) show ?thesis
    by (simp add: z_validate_utf8_def)
qed

lemma validate_total:
  assumes "\<not> st" "32 \<le> length mem" "32 * chunks len + 31 \<le> length mem"
  shows "z_validate_utf8 st ad mem len = Inr 0 \<or> z_validate_utf8 st ad mem len = Inr 1"
proof -
  from assms(1,2) obtain first where f: "load_vec st ad mem 0 = Inr first"
    by (auto simp: load_vec_def)
  with z_loop_total [of st 0 len mem ad] assms(1,3) show ?thesis
    by (simp add: z_validate_utf8_def)
qed

lemma validate_nonpositive:
  "32 dvd ad \<Longrightarrow> 32 \<le> length mem \<Longrightarrow> len \<le> 0 \<Longrightarrow> z_validate_utf8 st ad mem len = Inr 1"
  by (simp add: z_validate_utf8_def load_vec_def z_loop_stop)

section \<open>Length zero and below\<close>

text \<open>
  C8 (amended). For every buffer pointer that is 32-byte aligned and has at least 32
  readable bytes, length 0 gives the verdict 1. The vector at \<open>data\<close> is loaded before the
  loop also when \<open>len = 0\<close> (line 151): with fewer readable bytes that load is out of
  bounds, and at an address that is not a multiple of 32 an aligned load traps.
\<close>

theorem empty_input_aligned_readable:
  "32 dvd addr \<Longrightarrow> 32 \<le> length mem \<Longrightarrow> z_validate_utf8 strict addr mem 0 = Inr 1"
  by (rule validate_nonpositive) simp_all

theorem empty_input_aligned_readable_witness:
  "32 dvd (64 :: nat) \<and> 32 \<le> length (replicate 32 (0x41 :: u8))
   \<and> z_validate_utf8 True 64 (replicate 32 0x41) 0 = Inr 1"
  using empty_input_aligned_readable [of 64 "replicate 32 0x41" True] by simp

theorem empty_input_fault_counterexample:
  "z_validate_utf8 True 0 [] 0 = Inl Out_Of_Bounds
   \<and> z_validate_utf8 False 0 [] 0 = Inl Out_Of_Bounds
   \<and> z_validate_utf8 True 1 (replicate 33 0x41) 0 = Inl Misaligned"
  by (simp add: z_validate_utf8_def load_vec_def)

text \<open>
  C10 (amended). For every buffer pointer that is 32-byte aligned and has at least 32
  readable bytes, and every length \<open>len \<le> 0\<close>, negative ones included, the verdict is 1:
  the loop body never runs and the carry is still 0. The load of line 151 precedes the
  loop, so a shorter readable region or a misaligned pointer makes it fault.
\<close>

theorem nonpositive_length_aligned_readable:
  "32 dvd addr \<Longrightarrow> 32 \<le> length mem \<Longrightarrow> len \<le> 0 \<Longrightarrow> z_validate_utf8 strict addr mem len = Inr 1"
  by (rule validate_nonpositive)

theorem nonpositive_length_aligned_readable_witness:
  "32 dvd (32 :: nat) \<and> 32 \<le> length (replicate 32 (0xFF :: u8)) \<and> (- 5 :: int) \<le> 0
   \<and> z_validate_utf8 True 32 (replicate 32 0xFF) (- 5) = Inr 1"
  using nonpositive_length_aligned_readable [of 32 "replicate 32 0xFF" "- 5" True] by simp

theorem nonpositive_length_fault_counterexample:
  "z_validate_utf8 True 0 [0x41] (- 1) = Inl Out_Of_Bounds
   \<and> z_validate_utf8 False 0 [0x41] (- 1) = Inl Out_Of_Bounds
   \<and> z_validate_utf8 True 3 (replicate 40 0x41) (- 1) = Inl Misaligned"
  by (simp add: z_validate_utf8_def load_vec_def)

section \<open>The bytes the validator reads\<close>

text \<open>
  C2 (amended). A read outside the readable bytes is the result \<open>Inl Out_Of_Bounds\<close>.
  When \<open>max 32 (32 * ceil (len / 32) + 31)\<close> bytes are readable from \<open>data\<close> on, no load of
  the call is out of bounds: every byte it reads lies at an offset in
  \<open>[0, max 32 (32 * ceil (len / 32) + 31))\<close>. Offsets are formed by adding to \<open>data\<close>, so none
  lies before \<open>data[0]\<close>.
\<close>

theorem reads_stay_below_rounded_length_plus_31:
  assumes "32 \<le> length mem" and "32 * chunks len + 31 \<le> length mem"
  shows "z_validate_utf8 strict addr mem len \<noteq> Inl Out_Of_Bounds"
  using assms by (rule validate_in_bounds)

theorem reads_stay_below_witness:
  "32 \<le> length ([0xC3, 0x80 :: u8] @ replicate 61 0x41)
   \<and> 32 * chunks 32 + 31 \<le> length ([0xC3, 0x80 :: u8] @ replicate 61 0x41)
   \<and> z_validate_utf8 False 5 ([0xC3, 0x80] @ replicate 61 0x41) 32 \<noteq> Inl Out_Of_Bounds
   \<and> z_validate_utf8 False 5 ([0xC3, 0x80] @ replicate 61 0x41) 32 = Inr 1"
proof -
  have 1: "32 \<le> length ([0xC3, 0x80 :: u8] @ replicate 61 0x41)" by simp
  have 2: "32 * chunks 32 + 31 \<le> length ([0xC3, 0x80 :: u8] @ replicate 61 0x41)"
    by (simp add: chunks_def)
  have 3: "z_validate_utf8 False 5 ([0xC3, 0x80] @ replicate 61 0x41) 32 = Inr 1" by code_simp
  from reads_stay_below_rounded_length_plus_31 [OF 1 2, of False 5] 1 2 3 show ?thesis by blast
qed

theorem exact_length_buffer_counterexample:
  "z_validate_utf8 True 0 [0x68, 0x65, 0x6C, 0x6C, 0x6F] 5 = Inl Out_Of_Bounds
   \<and> z_validate_utf8 False 0 [0x68, 0x65, 0x6C, 0x6C, 0x6F] 5 = Inl Out_Of_Bounds
   \<and> z_validate_utf8 False 0 ([0xC3, 0x80] @ replicate 30 0x41) 32 = Inl Out_Of_Bounds"
  by code_simp

section \<open>A sequence cut by the end of the input\<close>

text \<open>
  C3 (amended). Let the byte at \<open>p < len\<close> be a leader whose continuation bytes would
  extend to index \<open>len\<close> or past it. If \<open>len\<close> is a multiple of 32, or the byte at index
  \<open>len\<close> is not a continuation byte, the call does not return 1; and it returns 0 when the
  vector loads take misaligned addresses and \<open>32 * ceil (len / 32) + 31\<close> bytes are
  readable. (The loop validates whole chunks: for another length a continuation byte at
  index \<open>len\<close> completes the sequence. And where a misaligned load traps, the load of
  line 221 stops the call after a chunk that passed both checks.)
\<close>

theorem truncated_sequence_not_accepted:
  assumes p: "p < nat len" and tr: "nat len \<le> p + leader_len (mem ! p)"
    and nc: "32 dvd len \<or> \<not> is_cont (mem ! nat len)"
  shows "z_validate_utf8 strict addr mem len \<noteq> Inr 1
     \<and> (\<not> strict \<and> 32 * chunks len + 31 \<le> length mem \<longrightarrow> z_validate_utf8 strict addr mem len = Inr 0)"
proof -
  let ?N = "32 * chunks len"
  from p have len: "0 < len" by simp
  define m where "m = nat len - p"
  have m: "m = 1 \<or> m = 2 \<or> m = 3" "m \<le> nat len" "nat len - m = p" "m \<le> leader_len (mem ! p)"
    unfolding m_def using p tr leader_len_le3 [of "mem ! p"] by linarith+
  have no: "z_validate_utf8 strict addr mem len \<noteq> Inr 1"
  proof
    assume "z_validate_utf8 strict addr mem len = Inr 1"
    from validate_Inr1 [OF this]
    have z: "carry_word mem ?N = 0" and s: "\<And>c. c < chunks len \<Longrightarrow> chunk_struct mem (32 * c)"
      by simp_all
    show False
    proof (cases "32 dvd len")
      case True
      with len have N: "?N = nat len" by (simp add: chunks_dvd)
      from m have "carry_bit mem (nat len) 0"
        unfolding carry_bit_def ex123 by auto
      then have "bit (carry_word mem ?N) 0" by (simp only: bit_carry_word N)
      with z show False by simp
    next
      case False
      with nc have c: "\<not> is_cont (mem ! nat len)" by simp
      from chunks_lt [OF len False] have "nat len div 32 < chunks len" by simp
      from s [OF this] have "chunk_struct mem (32 * (nat len div 32))" .
      moreover have "nat len mod 32 < 32" by simp
      ultimately have "is_cont (mem ! (32 * (nat len div 32) + nat len mod 32))
          \<longleftrightarrow> req_at mem (32 * (nat len div 32) + nat len mod 32)"
        unfolding chunk_struct_def by blast
      then have "is_cont (mem ! nat len) \<longleftrightarrow> req_at mem (nat len)"
        by (simp only: mult_div_mod_eq)
      moreover from m have "req_at mem (nat len)"
        unfolding req_at_def ex123 by auto
      ultimately show False using c by simp
    qed
  qed
  moreover have "z_validate_utf8 strict addr mem len = Inr 0"
    if "\<not> strict" "?N + 31 \<le> length mem"
  proof -
    from chunks_ge [OF len] p have "32 \<le> ?N" by simp
    with that(2) have "32 \<le> length mem" by simp
    from validate_total [OF that(1) this that(2), of addr] no show ?thesis by blast
  qed
  ultimately show ?thesis by blast
qed

theorem truncated_sequence_witness:
  "0 < nat 3 \<and> nat 3 \<le> 0 + leader_len (([0xF0, 0x90, 0x80] @ replicate 60 0) ! 0)
   \<and> \<not> is_cont (([0xF0, 0x90, 0x80] @ replicate 60 0) ! nat 3)
   \<and> 32 * chunks 3 + 31 \<le> length ([0xF0, 0x90, 0x80 :: u8] @ replicate 60 0)
   \<and> z_validate_utf8 False 7 ([0xF0, 0x90, 0x80] @ replicate 60 0) 3 = Inr 0
   \<and> z_validate_utf8 True 0 ([0xF0, 0x90, 0x80] @ replicate 60 0) 3 \<noteq> Inr 1"
proof -
  have 1: "0 < nat 3" and 2: "nat 3 \<le> 0 + leader_len (([0xF0, 0x90, 0x80] @ replicate 60 0) ! 0)"
    and 3: "32 dvd (3 :: int) \<or> \<not> is_cont (([0xF0, 0x90, 0x80] @ replicate 60 0) ! nat 3)"
    and n3: "\<not> is_cont (([0xF0, 0x90, 0x80] @ replicate 60 0) ! nat 3)"
    and 4: "32 * chunks 3 + 31 \<le> length ([0xF0, 0x90, 0x80 :: u8] @ replicate 60 0)"
    by code_simp+
  from truncated_sequence_not_accepted [OF 1 2 3, of False 7]
    truncated_sequence_not_accepted [OF 1 2 3, of True 0] 1 2 n3 4
  show ?thesis by simp
qed

theorem truncated_sequence_counterexample:
  "0 < nat 1 \<and> nat 1 \<le> 0 + leader_len (([0xC3, 0x80] @ replicate 61 0) ! 0)
   \<and> z_validate_utf8 False 0 ([0xC3, 0x80] @ replicate 61 0) 1 = Inr 1
   \<and> 31 < nat 32 \<and> nat 32 \<le> 31 + leader_len ((replicate 31 0x41 @ [0xC3] @ replicate 31 0) ! 31)
   \<and> z_validate_utf8 True 0 (replicate 31 0x41 @ [0xC3] @ replicate 31 0) 32 = Inl Misaligned"
  by code_simp

section \<open>An ASCII prefix of a whole chunk\<close>

text \<open>
  C6. The code keeps \<open>next_bytes\<close> unchanged across a chunk that it skips as pure ASCII
  (the \<^verbatim>\<open>continue\<close> of line 160 jumps over line 221), so the chunk after a skipped one is
  tested against the bytes before an earlier chunk and not against its own predecessor
  bytes, which line 198 says \<open>shifted_bytes\<close> holds. The surrogate \<open>ED A0 80\<close> at the start
  of the buffer is rejected; behind 32 ASCII bytes the same bytes pass both checks: the
  verdict is 1 when the loads take misaligned addresses, and the load of line 221 traps
  when they do not.
\<close>

theorem ascii_prefix_changes_verdict:
  "z_validate_utf8 False 0 ([0xED, 0xA0, 0x80] @ replicate 60 0x41) 32 = Inr 0
   \<and> z_validate_utf8 False 0 (replicate 32 0x41 @ [0xED, 0xA0, 0x80] @ replicate 60 0x41) 64 = Inr 1
   \<and> z_validate_utf8 True 0 ([0xED, 0xA0, 0x80] @ replicate 29 0x41) 32 = Inr 0
   \<and> z_validate_utf8 True 0 (replicate 32 0x41 @ [0xED, 0xA0, 0x80] @ replicate 29 0x41) 64 = Inl Misaligned"
  by code_simp

end
